theory Spec2Isabelle
  imports Complex_Main "HOL-Library.Monad_Syntax" "HOL-Library.Word" "HOL-Library.Sublist"
    "HOL-Library.Code_Target_Nat"
begin

section \<open>The AudioQueue reader driver (audio/internal/readerdriver/driver\_darwin.go)\<close>

text \<open>
  The driver is embedded as functions on one \<open>world\<close> value: the pool of the context,
  the registry \<open>thePlayers\<close>, the player objects (a store from player pointers to
  \<open>playerImpl\<close> records) and the native AudioToolbox side.

  \<^item> A native call appends itself to \<open>calls\<close> and returns the status the environment
    gives to that call, \<open>status w k\<close> for the \<open>k\<close>-th call; a call that creates an
    object returns the handle \<open>handle w k\<close>. Both functions are arbitrary, so every
    sequence of native results is covered.
  \<^item> \<open>sync.Mutex\<close> is a boolean. \<open>Lock\<close> on a held mutex never returns, and the
    runtime aborts on \<open>Unlock\<close> of a free one: both are the result \<open>None\<close>, which
    is also the result of a loop that runs forever.
  \<^item> Operations run one after the other: the goroutine of \<open>Play\<close>, the refill loop
    and the render callback are operations of their own, never interleaved inside
    another operation. \<open>cond.Signal\<close> and \<open>time.Sleep\<close> have no effect here.
\<close>

subsection \<open>Handles, statuses, errors\<close>

type_synonym AudioQueueRef = nat
type_synonym AudioQueueBufferRef = nat
type_synonym OSStatus = int
type_synonym byte = "8 word"
type_synonym UInt32 = "32 word"
type_synonym float64 = "64 word"
type_synonym Float32 = "32 word"

abbreviation nil :: nat where
  "nil \<equiv> 0"

definition noErr :: OSStatus where
  "noErr = 0"

definition kAudioQueueErr_EnqueueDuringReset :: OSStatus where
  "kAudioQueueErr_EnqueueDuringReset = - 66632"

definition AVAudioSessionErrorCodeSiriIsRecording :: OSStatus where
  "AVAudioSessionErrorCodeSiriIsRecording = 1936290409"

text \<open>A \<open>float64\<close> and a \<open>Float32\<close> are their IEEE 754 bit patterns: a sign bit, 11 or
  8 bits of exponent, 52 or 23 bits of fraction. \<open>AudioQueueParameterValue v\<close> is the
  conversion \<open>C.AudioQueueParameterValue(v)\<close> of a \<open>float64\<close> to the \<open>Float32\<close> the queue
  takes: the nearest \<open>Float32\<close>, the one with an even fraction when two are as near; an
  infinity when the magnitude is too large; a quiet NaN with the leading bits of the
  payload for a NaN.\<close>

definition AudioQueueParameterValue :: "float64 \<Rightarrow> Float32" where
  "AudioQueueParameterValue v =
     (let n = unat v;
          s = n div 2 ^ 63;
          e = n div 2 ^ 52 mod 2048;
          m = n mod 2 ^ 52;
          sig = (if e = 0 then m else 2 ^ 52 + m);
          sh = (if 897 \<le> e then 29 else 926 - e);
          q = sig div 2 ^ sh;
          r = sig mod 2 ^ sh;
          q' = (if 2 ^ (sh - 1) < r \<or> (r = 2 ^ (sh - 1) \<and> odd q) then q + 1 else q);
          mag = (if e = 2047 then (if m = 0 then 2139095040
                                   else 2143289344 + m div 2 ^ 29 mod 2 ^ 22)
                 else if 897 \<le> e then min ((e - 897) * 2 ^ 23 + q') 2139095040
                 else q')
      in of_nat (s * 2 ^ 31 + mag))"



text \<open>Go's \<open>error\<close> values: \<open>io.EOF\<close>, any other error of the byte source, and one
  constructor for each \<open>fmt.Errorf\<close> of the file, holding the status it prints.\<close>

datatype error =
    EOF
  | SrcError nat
  | NewOutputFailed OSStatus
  | AllocateBufferFailed OSStatus
  | FreeBufferFailed OSStatus
  | DisposeFailed OSStatus
  | PrimeFailed OSStatus
  | StartFailed OSStatus
  | PauseFailed OSStatus
  | StopFailed OSStatus
  | EnqueueBufferFailed OSStatus

text \<open>The native calls of the file, with the arguments as the C side receives them: the
  buffer size as \<open>C.UInt32(size)\<close>, the volume as \<open>C.AudioQueueParameterValue(volume)\<close>. The
  format descriptor of \<open>AudioQueueNewOutput\<close> is left out; \<open>AudioQueueEnqueueBuffer\<close> carries the bytes written to the buffer's memory
  before the call.\<close>

datatype call =
    AudioQueueNewOutput
  | AudioQueueAllocateBuffer AudioQueueRef UInt32
  | AudioQueueFreeBuffer AudioQueueRef AudioQueueBufferRef
  | AudioQueueDispose AudioQueueRef
  | AudioQueueSetParameter AudioQueueRef Float32
  | AudioQueuePrime AudioQueueRef
  | AudioQueueStart AudioQueueRef
  | AudioQueuePause AudioQueueRef
  | AudioQueueStop AudioQueueRef
  | AudioQueueEnqueueBuffer AudioQueueRef AudioQueueBufferRef "byte list"

subsection \<open>Data\<close>

record audioQueuePoolItem =
  queue :: AudioQueueRef
  bufs :: "AudioQueueBufferRef list"

definition audioQueuePoolMaxItemNum :: nat where
  "audioQueuePoolMaxItemNum = 32"

record audioQueuePool =
  unused :: "audioQueuePoolItem list"
  used :: "audioQueuePoolItem list"

text \<open>Modelled from the spec: \<open>oneBufferSize\<close> and \<open>maxBufferSize\<close> are methods of
  \<open>context\<close> declared in another file of the package; here they are two fields, any two
  sizes. So is \<open>playerState\<close> with its three constants.\<close>

record "context" =
  sampleRate :: int
  channelNum :: int
  bitDepthInBytes :: int
  oneBufferSize :: nat
  maxBufferSize :: nat

datatype playerState = playerPaused | playerPlay | playerClosed

text \<open>\<open>src\<close> is the \<open>io.Reader\<close>: the results of its coming \<open>Read\<close> calls, the next one
  at index 0. \<open>volume\<close> is a \<open>float64\<close>.
  The field \<open>m\<close> is \<open>mutex\<close>; \<open>context\<close> (there is one context) and \<open>id\<close> (unused in
  this file) are left out.\<close>

record playerImpl =
  src :: "nat \<Rightarrow> byte list \<times> error option"
  audioQueue :: AudioQueueRef
  buf :: "byte list"
  unqueuedBufs :: "AudioQueueBufferRef list"
  state :: playerState
  err :: "error option"
  eof :: bool
  volume :: float64
  mutex :: bool

record players =
  players :: "AudioQueueRef \<rightharpoonup> nat"
  toResume :: "nat set"
  cond_L :: bool

record world =
  ctx :: "context"
  pool :: audioQueuePool
  thePlayers :: players
  heap :: "nat \<Rightarrow> playerImpl"
  status :: "nat \<Rightarrow> OSStatus"
  handle :: "nat \<Rightarrow> nat"
  calls :: "call list"

subsection \<open>Native calls\<close>

definition native :: "call \<Rightarrow> world \<Rightarrow> OSStatus \<times> world" where
  "native c w = (status w (length (calls w)), w\<lparr>calls := calls w @ [c]\<rparr>)"

definition newHandle :: "world \<Rightarrow> nat" where
  "newHandle w = handle w (length (calls w))"

subsection \<open>audioQueuePool\<close>

text \<open>The loop \<open>for len(bufs) < cap(bufs)\<close> of \<open>Get\<close>, with the number of buffers still
  to allocate as first argument.\<close>

fun allocateBuffers ::
  "nat \<Rightarrow> AudioQueueRef \<Rightarrow> nat \<Rightarrow> AudioQueueBufferRef list \<Rightarrow> world
    \<Rightarrow> (error + AudioQueueBufferRef list) \<times> world" where
  "allocateBuffers 0 q sz bs w = (Inr bs, w)"
| "allocateBuffers (Suc n) q sz bs w =
     (case native (AudioQueueAllocateBuffer q (of_nat sz)) w of
        (osstatus, w1) \<Rightarrow>
          if osstatus \<noteq> noErr then (Inl (AllocateBufferFailed osstatus), w1)
          else allocateBuffers n q sz (bs @ [newHandle w]) w1)"

definition Get :: "world \<Rightarrow> (error + AudioQueueRef \<times> AudioQueueBufferRef list) \<times> world" where
  "Get w =
     (case unused (pool w) of
        q # rest \<Rightarrow>
          (Inr (queue q, bufs q),
           w\<lparr>pool := (pool w)\<lparr>unused := rest, used := used (pool w) @ [q]\<rparr>\<rparr>)
      | [] \<Rightarrow>
          (case native AudioQueueNewOutput w of
             (osstatus, w1) \<Rightarrow>
               if osstatus \<noteq> noErr then (Inl (NewOutputFailed osstatus), w1)
               else
                 (case allocateBuffers 2 (newHandle w) (oneBufferSize (ctx w1)) [] w1 of
                    (Inl e, w2) \<Rightarrow> (Inl e, w2)
                  | (Inr bs, w2) \<Rightarrow>
                      (Inr (newHandle w, bs),
                       w2\<lparr>pool := (pool w2)\<lparr>used :=
                          used (pool w2) @ [\<lparr>queue = newHandle w, bufs = bs\<rparr>]\<rparr>\<rparr>))))"

fun freeBuffers ::
  "AudioQueueRef \<Rightarrow> AudioQueueBufferRef list \<Rightarrow> world \<Rightarrow> error option \<times> world" where
  "freeBuffers q [] w = (None, w)"
| "freeBuffers q (b # bs) w =
     (case native (AudioQueueFreeBuffer q b) w of
        (osstatus, w1) \<Rightarrow>
          if osstatus \<noteq> noErr then (Some (FreeBufferFailed osstatus), w1)
          else freeBuffers q bs w1)"

text \<open>The \<open>range a.used\<close> loop of \<open>Put\<close>: \<open>pre\<close> holds the items already passed over,
  the list argument the items still to visit.\<close>

fun PutLoop ::
  "AudioQueueRef \<Rightarrow> audioQueuePoolItem list \<Rightarrow> audioQueuePoolItem list \<Rightarrow> world
    \<Rightarrow> error option \<times> world" where
  "PutLoop a pre [] w = (None, w)"
| "PutLoop a pre (q # post) w =
     (if queue q \<noteq> a then PutLoop a (pre @ [q]) post w
      else
        (let w1 = w\<lparr>pool := (pool w)\<lparr>used := pre @ post\<rparr>\<rparr> in
         if length (unused (pool w1)) + length (used (pool w1)) < audioQueuePoolMaxItemNum
         then (None, w1\<lparr>pool := (pool w1)\<lparr>unused := unused (pool w1) @ [q]\<rparr>\<rparr>)
         else
           (case freeBuffers (queue q) (bufs q) w1 of
              (Some e, w2) \<Rightarrow> (Some e, w2)
            | (None, w2) \<Rightarrow>
                (case native (AudioQueueDispose (queue q)) w2 of
                   (osstatus, w3) \<Rightarrow>
                     if osstatus \<noteq> noErr then (Some (DisposeFailed osstatus), w3)
                     else (None, w3)))))"

definition Put :: "AudioQueueRef \<Rightarrow> world \<Rightarrow> error option \<times> world" where
  "Put a w = PutLoop a [] (used (pool w)) w"

fun PrepareLoop :: "nat \<Rightarrow> world \<Rightarrow> error option \<times> world" where
  "PrepareLoop 0 w = (None, w)"
| "PrepareLoop (Suc n) w =
     (case Get w of
        (Inl e, w1) \<Rightarrow> (Some e, w1)
      | (Inr r, w1) \<Rightarrow> PrepareLoop n w1)"

definition Prepare :: "world \<Rightarrow> error option \<times> world" where
  "Prepare w =
     (case PrepareLoop audioQueuePoolMaxItemNum w of
        (Some e, w1) \<Rightarrow> (Some e, w1)
      | (None, w1) \<Rightarrow> (None, w1\<lparr>pool := (pool w1)\<lparr>unused := used (pool w1), used := []\<rparr>\<rparr>))"

subsection \<open>Mutexes\<close>

text \<open>\<open>Lock p\<close> and \<open>Unlock p\<close> are \<open>p.m.Lock()\<close> and \<open>p.m.Unlock()\<close>; \<open>L_Lock\<close> and
  \<open>L_Unlock\<close> are \<open>thePlayers.cond.L.Lock()\<close> and \<open>thePlayers.cond.L.Unlock()\<close>. The mutex of
  the pool is taken by \<open>Get\<close> and \<open>Put\<close> alone, which call nothing that takes it again,
  and is left out.\<close>

definition upd :: "nat \<Rightarrow> (playerImpl \<Rightarrow> playerImpl) \<Rightarrow> world \<Rightarrow> world" where
  "upd p f w = w\<lparr>heap := (heap w)(p := f (heap w p))\<rparr>"

definition Lock :: "nat \<Rightarrow> world \<Rightarrow> world option" where
  "Lock p w = (if mutex (heap w p) then None else Some (upd p (\<lambda>x. x\<lparr>mutex := True\<rparr>) w))"

definition Unlock :: "nat \<Rightarrow> world \<Rightarrow> world option" where
  "Unlock p w = (if mutex (heap w p) then Some (upd p (\<lambda>x. x\<lparr>mutex := False\<rparr>) w) else None)"

definition L_Lock :: "world \<Rightarrow> world option" where
  "L_Lock w =
     (if cond_L (thePlayers w) then None
      else Some (w\<lparr>thePlayers := (thePlayers w)\<lparr>cond_L := True\<rparr>\<rparr>))"

definition L_Unlock :: "world \<Rightarrow> world option" where
  "L_Unlock w =
     (if cond_L (thePlayers w) then Some (w\<lparr>thePlayers := (thePlayers w)\<lparr>cond_L := False\<rparr>\<rparr>)
      else None)"

subsection \<open>The registry \<open>thePlayers\<close>\<close>

text \<open>\<open>add\<close> starts the refill goroutine when the map was empty; its work is the
  operation \<open>readSourceToBuffer\<close> below.\<close>

definition add :: "nat \<Rightarrow> AudioQueueRef \<Rightarrow> world \<Rightarrow> world option" where
  "add player a w = do {
     w1 \<leftarrow> L_Lock w;
     L_Unlock (w1\<lparr>thePlayers := (thePlayers w1)\<lparr>players := (players (thePlayers w1))(a \<mapsto> player)\<rparr>\<rparr>)
   }"

definition get :: "AudioQueueRef \<Rightarrow> world \<Rightarrow> nat option option" where
  "get a w = do {
     w1 \<leftarrow> L_Lock w;
     w2 \<leftarrow> L_Unlock w1;
     Some (players (thePlayers w1) a)
   }"

definition remove :: "AudioQueueRef \<Rightarrow> world \<Rightarrow> world option" where
  "remove a w = do {
     w1 \<leftarrow> L_Lock w;
     (case players (thePlayers w1) a of
        None \<Rightarrow> L_Unlock w1
      | Some pl \<Rightarrow>
          L_Unlock (w1\<lparr>thePlayers := (thePlayers w1)\<lparr>
            players := (players (thePlayers w1))(a := None),
            toResume := toResume (thePlayers w1) - {pl}\<rparr>\<rparr>))
   }"

subsection \<open>playerImpl: closing and errors\<close>

definition closeAudioQueue :: "nat \<Rightarrow> world \<Rightarrow> (error option \<times> world) option" where
  "closeAudioQueue p w =
     (if audioQueue (heap w p) = nil then Some (None, w)
      else do {
        w1 \<leftarrow> Unlock p w;
        (case native (AudioQueueStop (audioQueue (heap w p))) w1 of
           (osstatus, w2) \<Rightarrow> do {
             w3 \<leftarrow> Lock p w2;
             if osstatus \<noteq> noErr \<and> err (heap w3 p) = None
             then Some (Some (StopFailed osstatus), w3)
             else
               (case Put (audioQueue (heap w3 p)) w3 of
                  (e, w4) \<Rightarrow>
                    if e \<noteq> None \<and> err (heap w4 p) = None then Some (e, w4)
                    else do {
                      w5 \<leftarrow> Unlock p w4;
                      w6 \<leftarrow> remove (audioQueue (heap w5 p)) w5;
                      w7 \<leftarrow> Lock p w6;
                      Some (None, upd p (\<lambda>x. x\<lparr>audioQueue := nil\<rparr>) w7)
                    })
           })
      })"

definition closeImpl :: "nat \<Rightarrow> world \<Rightarrow> (error option \<times> world) option" where
  "closeImpl p w = do {
     (e, w1) \<leftarrow> closeAudioQueue p w;
     let w2 = (if e \<noteq> None \<and> err (heap w1 p) = None then upd p (\<lambda>x. x\<lparr>err := e\<rparr>) w1 else w1);
     let w3 = upd p (\<lambda>x. x\<lparr>state := playerClosed\<rparr>) w2;
     Some (err (heap w3 p), w3)
   }"

definition setErrorImpl :: "nat \<Rightarrow> error \<Rightarrow> world \<Rightarrow> world option" where
  "setErrorImpl p e w = do {
     (r, w1) \<leftarrow> closeImpl p (upd p (\<lambda>x. x\<lparr>err := Some e\<rparr>) w);
     Some w1
   }"

definition setError :: "nat \<Rightarrow> error \<Rightarrow> world \<Rightarrow> world option" where
  "setError p e w = do {
     w1 \<leftarrow> Lock p w;
     w2 \<leftarrow> setErrorImpl p e w1;
     Unlock p w2
   }"

subsection \<open>playerImpl: buffers and the byte source\<close>

text \<open>\<open>Read p n\<close> is \<open>p.src.Read(buf)\<close> with \<open>len(buf) = n\<close>: the reader's next result, at
  most \<open>n\<close> bytes of it (an \<open>io.Reader\<close> fills at most \<open>len(buf)\<close> bytes), and the reader
  moved on by one call.\<close>

definition Read :: "nat \<Rightarrow> nat \<Rightarrow> world \<Rightarrow> (byte list \<times> error option) \<times> world" where
  "Read p n w =
     (case src (heap w p) 0 of
        (d, e) \<Rightarrow> ((take n d, e), upd p (\<lambda>x. x\<lparr>src := (\<lambda>k. src x (Suc k))\<rparr>) w))"

definition appendBufferImpl ::
  "nat \<Rightarrow> AudioQueueBufferRef \<Rightarrow> world \<Rightarrow> (bool \<times> error option) \<times> world" where
  "appendBufferImpl p inBuffer w =
     (if eof (heap w p) \<and> length (buf (heap w p)) = 0 then ((False, None), w)
      else
        (let n = (if length (buf (heap w p)) < oneBufferSize (ctx w)
                  then length (buf (heap w p)) else oneBufferSize (ctx w));
             b = take n (buf (heap w p))
         in case native (AudioQueueEnqueueBuffer (audioQueue (heap w p)) inBuffer
                           (b @ replicate (oneBufferSize (ctx w) - length b) 0)) w of
              (osstatus, w1) \<Rightarrow>
                if osstatus \<noteq> noErr then
                  (if osstatus = kAudioQueueErr_EnqueueDuringReset then ((False, None), w1)
                   else ((False, Some (EnqueueBufferFailed osstatus)), w1))
                else ((True, None), upd p (\<lambda>x. x\<lparr>buf := drop n (buf x)\<rparr>) w1)))"

definition appendBuffer ::
  "nat \<Rightarrow> AudioQueueBufferRef \<Rightarrow> world \<Rightarrow> ((bool \<times> error option) \<times> world) option" where
  "appendBuffer p inBuffer w = do {
     w1 \<leftarrow> Lock p w;
     (case appendBufferImpl p inBuffer w1 of
        (r, w2) \<Rightarrow> do { w3 \<leftarrow> Unlock p w2; Some (r, w3) })
   }"

definition canReadSourceToBuffer :: "nat \<Rightarrow> world \<Rightarrow> bool option" where
  "canReadSourceToBuffer p w = do {
     w1 \<leftarrow> Lock p w;
     w2 \<leftarrow> Unlock p w1;
     Some (if eof (heap w1 p) then False
           else length (buf (heap w1 p)) < maxBufferSize (ctx w1))
   }"

text \<open>One pass of the refill loop over one player. A read error other than \<open>io.EOF\<close>
  goes to \<open>setError\<close>, as in the source, while \<open>p.m\<close> is held.\<close>

definition readSourceToBuffer :: "nat \<Rightarrow> world \<Rightarrow> world option" where
  "readSourceToBuffer p w = do {
     w1 \<leftarrow> Lock p w;
     w5 \<leftarrow>
       (if err (heap w1 p) \<noteq> None then Some w1
        else if state (heap w1 p) = playerClosed then Some w1
        else if length (buf (heap w1 p)) \<ge> maxBufferSize (ctx w1) then Some w1
        else
          (case Read p (maxBufferSize (ctx w1)) w1 of
             ((d, e), w2) \<Rightarrow>
               (case e of
                  None \<Rightarrow> Some (upd p (\<lambda>x. x\<lparr>buf := buf x @ d\<rparr>) w2)
                | Some x \<Rightarrow>
                    if x \<noteq> EOF then setError p x w2
                    else
                      (let w3 = upd p (\<lambda>x. x\<lparr>buf := buf x @ d\<rparr>) w2 in
                       Some (if length (buf (heap w3 p)) = 0
                             then upd p (\<lambda>x. x\<lparr>eof := True\<rparr>) w3 else w3)))));
     Unlock p w5
   }"

subsection \<open>playerImpl: the public operations\<close>

text \<open>\<open>NewPlayer\<close> allocates a player with the zero value of every field but \<open>src\<close> and
  \<open>volume\<close>, which is 1 (the bits \<open>0x3FF0000000000000\<close>); the zero \<open>playerState\<close> is
  \<open>playerPaused\<close>. The finalizer is left out.\<close>

definition NewPlayer :: "(nat \<Rightarrow> byte list \<times> error option) \<Rightarrow> playerImpl" where
  "NewPlayer s =
     \<lparr>src = s, audioQueue = nil, buf = [], unqueuedBufs = [], state = playerPaused,
      err = None, eof = False, volume = 4607182418800017408, mutex = False\<rparr>"

definition Err :: "nat \<Rightarrow> world \<Rightarrow> error option option" where
  "Err p w = do {
     w1 \<leftarrow> Lock p w;
     w2 \<leftarrow> Unlock p w1;
     Some (err (heap w1 p))
   }"

text \<open>The first section of \<open>playImpl\<close> after its guards, taking a queue from the pool, and
  its three loops: the first fill of \<open>p.buf\<close>, the pass over the unqueued buffers, and the
  retry of \<open>AudioQueuePrime\<close>. \<open>playImpl_acquire\<close> returns \<open>False\<close> when \<open>playImpl\<close> returns
  there.\<close>

definition playImpl_acquire :: "nat \<Rightarrow> world \<Rightarrow> (bool \<times> world) option" where
  "playImpl_acquire p w =
     (if audioQueue (heap w p) = nil then
        (case Get w of
           (Inl e, w1) \<Rightarrow> do { w2 \<leftarrow> setErrorImpl p e w1; Some (False, w2) }
         | (Inr (a, bs), w1) \<Rightarrow>
             (let w2 = upd p (\<lambda>x. x\<lparr>audioQueue := a, unqueuedBufs := bs\<rparr>) w1 in
              case native (AudioQueueSetParameter (audioQueue (heap w2 p))
                             (AudioQueueParameterValue (volume (heap w2 p)))) w2 of
                (osstatus, w3) \<Rightarrow> do {
                  w4 \<leftarrow> Unlock p w3;
                  w5 \<leftarrow> add p (audioQueue (heap w4 p)) w4;
                  w6 \<leftarrow> Lock p w5;
                  Some (True, w6)
                }))
      else Some (True, w))"

partial_function (option) fillLoop :: "nat \<Rightarrow> world \<Rightarrow> (error option \<times> world) option" where
  "fillLoop p w =
     (if length (buf (heap w p)) < maxBufferSize (ctx w) then
        (case Read p (maxBufferSize (ctx w)) w of
           ((d, e), w1) \<Rightarrow>
             (case e of
                None \<Rightarrow> fillLoop p (upd p (\<lambda>x. x\<lparr>buf := buf x @ d\<rparr>) w1)
              | Some x \<Rightarrow>
                  if x \<noteq> EOF then Some (Some x, w1)
                  else Some (None, upd p (\<lambda>x. x\<lparr>eof := True\<rparr>)
                                     (upd p (\<lambda>x. x\<lparr>buf := buf x @ d\<rparr>) w1))))
      else Some (None, w))"

declare fillLoop.simps [code]

fun drainLoop ::
  "nat \<Rightarrow> AudioQueueBufferRef list \<Rightarrow> AudioQueueBufferRef list \<Rightarrow> world
    \<Rightarrow> (error + AudioQueueBufferRef list) \<times> world" where
  "drainLoop p [] unenqueued w = (Inr unenqueued, w)"
| "drainLoop p (b # bs) unenqueued w =
     (case appendBufferImpl p b w of
        ((queued, Some e), w1) \<Rightarrow> (Inl e, w1)
      | ((queued, None), w1) \<Rightarrow>
          drainLoop p bs (if \<not> queued then unenqueued @ [b] else unenqueued) w1)"

partial_function (option) primeLoop :: "AudioQueueRef \<Rightarrow> world \<Rightarrow> (OSStatus \<times> world) option" where
  "primeLoop a w =
     (case native (AudioQueuePrime a) w of
        (osstatus, w1) \<Rightarrow>
          if osstatus \<noteq> noErr then
            (if osstatus = AVAudioSessionErrorCodeSiriIsRecording then primeLoop a w1
             else Some (osstatus, w1))
          else Some (osstatus, w1))"

declare primeLoop.simps [code]

text \<open>\<open>playImpl\<close> after its guards, cut at its loops: \<open>playImpl_start\<close> is the retry of
  \<open>AudioQueuePrime\<close> and \<open>AudioQueueStart\<close>, \<open>playImpl_drain\<close> the pass over the unqueued
  buffers and the end-of-stream test before it, \<open>playImpl_fill\<close> the first fill of \<open>p.buf\<close>
  before that.\<close>

definition playImpl_start :: "nat \<Rightarrow> world \<Rightarrow> world option" where
  "playImpl_start p w = do {
     (osstatus, w1) \<leftarrow> primeLoop (audioQueue (heap w p)) w;
     if osstatus \<noteq> noErr then setErrorImpl p (PrimeFailed osstatus) w1
     else
       (case native (AudioQueueStart (audioQueue (heap w1 p))) w1 of
          (osstatus2, w2) \<Rightarrow>
            if osstatus2 \<noteq> noErr then setErrorImpl p (StartFailed osstatus2) w2
            else Some (upd p (\<lambda>x. x\<lparr>state := playerPlay\<rparr>) w2))
   }"

definition playImpl_drain :: "nat \<Rightarrow> world \<Rightarrow> world option" where
  "playImpl_drain p w =
     (case drainLoop p (unqueuedBufs (heap w p)) [] w of
        (Inl x, w1) \<Rightarrow> setErrorImpl p x w1
      | (Inr unenqueued, w1) \<Rightarrow>
          (let w2 = upd p (\<lambda>x. x\<lparr>unqueuedBufs := unenqueued\<rparr>) w1 in
           if length (unqueuedBufs (heap w2 p)) = 2 \<and> eof (heap w2 p)
           then Some (upd p (\<lambda>x. x\<lparr>state := playerPaused\<rparr>) w2)
           else playImpl_start p w2))"

definition playImpl_fill :: "nat \<Rightarrow> world \<Rightarrow> world option" where
  "playImpl_fill p w = do {
     (e, w1) \<leftarrow> fillLoop p w;
     (case e of
        Some x \<Rightarrow> setErrorImpl p x w1
      | None \<Rightarrow> playImpl_drain p w1)
   }"

definition playImpl :: "nat \<Rightarrow> world \<Rightarrow> world option" where
  "playImpl p w =
     (if err (heap w p) \<noteq> None then Some w
      else if state (heap w p) \<noteq> playerPaused then Some w
      else do {
        (ok, w1) \<leftarrow> playImpl_acquire p w;
        if \<not> ok then Some w1 else playImpl_fill p w1
      })"

text \<open>\<open>Play\<close> starts a goroutine that takes \<open>p.m\<close> and runs \<open>playImpl\<close>, and returns once
  the mutex is taken. Every later operation on the player waits for that mutex, so here the
  goroutine's work is part of \<open>Play\<close>.\<close>

definition Play :: "nat \<Rightarrow> world \<Rightarrow> world option" where
  "Play p w = do {
     w1 \<leftarrow> Lock p w;
     w2 \<leftarrow> playImpl p w1;
     Unlock p w2
   }"

definition Pause :: "nat \<Rightarrow> world \<Rightarrow> world option" where
  "Pause p w = do {
     w1 \<leftarrow> Lock p w;
     w3 \<leftarrow>
       (if err (heap w1 p) \<noteq> None then Some w1
        else if state (heap w1 p) \<noteq> playerPlay then Some w1
        else if audioQueue (heap w1 p) = nil then Some w1
        else
          (case native (AudioQueuePause (audioQueue (heap w1 p))) w1 of
             (osstatus, w2) \<Rightarrow>
               if osstatus \<noteq> noErr \<and> err (heap w2 p) = None
               then setErrorImpl p (PauseFailed osstatus) w2
               else Some (upd p (\<lambda>x. x\<lparr>state := playerPaused\<rparr>) w2)));
     Unlock p w3
   }"

definition resetImpl :: "nat \<Rightarrow> world \<Rightarrow> world option" where
  "resetImpl p w =
     (if err (heap w p) \<noteq> None then Some w
      else if state (heap w p) = playerClosed then Some w
      else if audioQueue (heap w p) = nil then Some w
      else do {
        (e, w1) \<leftarrow> closeAudioQueue p w;
        (case e of
           Some x \<Rightarrow> setErrorImpl p x w1
         | None \<Rightarrow> Some (upd p (\<lambda>x. x\<lparr>state := playerPaused, buf := [], eof := False\<rparr>) w1))
      })"

definition Reset :: "nat \<Rightarrow> world \<Rightarrow> world option" where
  "Reset p w = do {
     w1 \<leftarrow> Lock p w;
     w2 \<leftarrow> resetImpl p w1;
     Unlock p w2
   }"

definition IsPlaying :: "nat \<Rightarrow> world \<Rightarrow> bool option" where
  "IsPlaying p w = do {
     w1 \<leftarrow> Lock p w;
     w2 \<leftarrow> Unlock p w1;
     Some (state (heap w1 p) = playerPlay)
   }"


definition SetVolume :: "nat \<Rightarrow> float64 \<Rightarrow> world \<Rightarrow> world option" where
  "SetVolume p v w = do {
     w1 \<leftarrow> Lock p w;
     let w2 = upd p (\<lambda>x. x\<lparr>volume := v\<rparr>) w1;
     Unlock p (if audioQueue (heap w2 p) = nil then w2
               else snd (native (AudioQueueSetParameter (audioQueue (heap w2 p))
                                   (AudioQueueParameterValue v)) w2))
   }"

definition UnplayedBufferSize :: "nat \<Rightarrow> world \<Rightarrow> nat option" where
  "UnplayedBufferSize p w = do {
     w1 \<leftarrow> Lock p w;
     w2 \<leftarrow> Unlock p w1;
     Some (length (buf (heap w1 p)))
   }"

definition Close :: "nat \<Rightarrow> world \<Rightarrow> (error option \<times> world) option" where
  "Close p w = do {
     w1 \<leftarrow> Lock p w;
     (e, w2) \<leftarrow> closeImpl p w1;
     w3 \<leftarrow> Unlock p w2;
     Some (e, w3)
   }"

subsection \<open>The render callback\<close>

definition ebiten_readerdriver_render ::
  "AudioQueueRef \<Rightarrow> AudioQueueBufferRef \<Rightarrow> world \<Rightarrow> world option" where
  "ebiten_readerdriver_render inAQ inBuffer w = do {
     r \<leftarrow> get inAQ w;
     (case r of
        None \<Rightarrow> Some w
      | Some p \<Rightarrow> do {
          ((queued, e), w1) \<leftarrow> appendBuffer p inBuffer w;
          (case e of
             Some x \<Rightarrow> setError p x w1
           | None \<Rightarrow>
               if queued then Some w1
               else do {
                 w2 \<leftarrow> Lock p w1;
                 let w3 = upd p (\<lambda>x. x\<lparr>unqueuedBufs := unqueuedBufs x @ [inBuffer]\<rparr>) w2;
                 w4 \<leftarrow> (if length (unqueuedBufs (heap w3 p)) = 2 \<and> eof (heap w3 p)
                        then resetImpl p w3 else Some w3);
                 Unlock p w4
               })
        })
   }"

subsection \<open>Suspend and resume\<close>

text \<open>Go visits a map in an order of its own choice. \<open>suspend\<close> takes the order over the
  keys of \<open>players\<close> as its first argument, \<open>resume\<close> the order over the elements copied
  from \<open>toResume\<close>: a list of exactly these keys or elements, each once. An entry deleted
  before the loop reaches it is not visited.\<close>

fun suspendLoop :: "AudioQueueRef list \<Rightarrow> world \<Rightarrow> (error option \<times> world) option" where
  "suspendLoop [] w = Some (None, w)"
| "suspendLoop (a # as) w =
     (case players (thePlayers w) a of
        None \<Rightarrow> suspendLoop as w
      | Some pl \<Rightarrow> do {
          playing \<leftarrow> IsPlaying pl w;
          if \<not> playing then suspendLoop as w
          else do {
            w1 \<leftarrow> Pause pl w;
            e \<leftarrow> Err pl w1;
            if e \<noteq> None then Some (e, w1)
            else suspendLoop as
                   (w1\<lparr>thePlayers := (thePlayers w1)\<lparr>toResume :=
                      insert pl (toResume (thePlayers w1))\<rparr>\<rparr>)
          }
        })"

definition suspend :: "AudioQueueRef list \<Rightarrow> world \<Rightarrow> (error option \<times> world) option" where
  "suspend order w = do {
     w1 \<leftarrow> L_Lock w;
     (e, w2) \<leftarrow> suspendLoop order w1;
     w3 \<leftarrow> L_Unlock w2;
     Some (e, w3)
   }"

fun resumeLoop :: "nat list \<Rightarrow> world \<Rightarrow> (error option \<times> world) option" where
  "resumeLoop [] w = Some (None, w)"
| "resumeLoop (pl # pls) w = do {
     w1 \<leftarrow> Play pl w;
     e \<leftarrow> Err pl w1;
     if e \<noteq> None then Some (e, w1) else resumeLoop pls w1
   }"

definition resume :: "nat list \<Rightarrow> world \<Rightarrow> (error option \<times> world) option" where
  "resume order w = do {
     w1 \<leftarrow> L_Lock w;
     w2 \<leftarrow> L_Unlock (w1\<lparr>thePlayers := (thePlayers w1)\<lparr>toResume := {}\<rparr>\<rparr>);
     resumeLoop order w2
   }"

subsection \<open>Worlds and operation sequences used in the statements\<close>

text \<open>\<open>blank s st\<close> is the world before \<open>NewContext\<close>: an empty pool, nobody registered,
  every player as \<open>NewPlayer\<close> leaves it on the source \<open>s\<close>, no native call made yet, and a
  native side that answers the \<open>k\<close>-th call with \<open>st k\<close> and hands out the handles 1, 2, ...\<close>

definition ctx0 :: "context" where
  "ctx0 = \<lparr>sampleRate = 44100, channelNum = 2, bitDepthInBytes = 2,
            oneBufferSize = 4, maxBufferSize = 8\<rparr>"

definition blank :: "(nat \<Rightarrow> byte list \<times> error option) \<Rightarrow> (nat \<Rightarrow> OSStatus) \<Rightarrow> world" where
  "blank s st =
     \<lparr>ctx = ctx0, pool = \<lparr>unused = [], used = []\<rparr>,
      thePlayers = \<lparr>players = Map.empty, toResume = {}, cond_L = False\<rparr>,
      heap = (\<lambda>p. NewPlayer s), status = st, handle = Suc, calls = []\<rparr>"

definition ok :: "nat \<Rightarrow> OSStatus" where
  "ok k = noErr"

definition silence :: "nat \<Rightarrow> byte list \<times> error option" where
  "silence k = ([], Some EOF)"

definition siri_after :: "nat \<Rightarrow> nat \<Rightarrow> OSStatus" where
  "siri_after n k = (if k < n then noErr else AVAudioSessionErrorCodeSiriIsRecording)"

definition fails_at :: "nat \<Rightarrow> nat \<Rightarrow> OSStatus" where
  "fails_at n k = (if k = n then - 50 else noErr)"

definition three_bytes :: "nat \<Rightarrow> byte list \<times> error option" where
  "three_bytes k = ([1, 2, 3], Some EOF)"

definition broken_reader :: "nat \<Rightarrow> byte list \<times> error option" where
  "broken_reader k = (if k = 0 then ([1, 2, 3, 4, 5, 6, 7, 8], None) else ([], Some (SrcError 1)))"

datatype pool_op = PoolGet | PoolPut AudioQueueRef

fun pool_run :: "pool_op list \<Rightarrow> world \<Rightarrow> world" where
  "pool_run [] w = w"
| "pool_run (PoolGet # ops) w = pool_run ops (snd (Get w))"
| "pool_run (PoolPut a # ops) w = pool_run ops (snd (Put a w))"

definition resident :: "world \<Rightarrow> nat" where
  "resident w = length (unused (pool w)) + length (used (pool w))"

text \<open>What a function of the pool leaves alone.\<close>

definition pool_frame :: "world \<Rightarrow> world \<Rightarrow> bool" where
  "pool_frame w w' \<longleftrightarrow>
     ctx w' = ctx w \<and> status w' = status w \<and> handle w' = handle w \<and> heap w' = heap w \<and>
     thePlayers w' = thePlayers w \<and> prefix (calls w) (calls w')"

subsection \<open>The operations without their mutex traffic\<close>

text \<open>\<open>held p w\<close>: the caller holds \<open>p.m\<close> and nobody holds \<open>cond.L\<close>, which is how \<open>playImpl\<close>,
  \<open>resetImpl\<close>, \<open>closeImpl\<close> and \<open>setErrorImpl\<close> are entered; \<open>idle p w\<close>: both are free, which is
  how a public operation is entered. \<open>unregister\<close>, \<open>register\<close> and the functions named
  \<open>...0\<close> are the bodies of \<open>remove\<close>, \<open>add\<close>, \<open>closeAudioQueue\<close>, \<open>closeImpl\<close>, \<open>setErrorImpl\<close>,
  \<open>playImpl_acquire\<close> and \<open>resetImpl\<close> with every \<open>Lock\<close> and \<open>Unlock\<close> taken out; the lemmas
  \<open>..._held\<close> show that they return the same world when \<open>held p w\<close>. \<open>frame p w w'\<close> is what
  every function working on player \<open>p\<close> leaves alone.\<close>

definition unregister :: "AudioQueueRef \<Rightarrow> world \<Rightarrow> world" where
  "unregister a w =
     (case players (thePlayers w) a of
        None \<Rightarrow> w
      | Some pl \<Rightarrow>
          w\<lparr>thePlayers := (thePlayers w)\<lparr>
            players := (players (thePlayers w))(a := None),
            toResume := toResume (thePlayers w) - {pl}\<rparr>\<rparr>)"

definition closeAudioQueue0 :: "nat \<Rightarrow> world \<Rightarrow> error option \<times> world" where
  "closeAudioQueue0 p w =
     (if audioQueue (heap w p) = nil then (None, w)
      else
        (case native (AudioQueueStop (audioQueue (heap w p))) w of
           (osstatus, w2) \<Rightarrow>
             if osstatus \<noteq> noErr \<and> err (heap w2 p) = None
             then (Some (StopFailed osstatus), w2)
             else
               (case Put (audioQueue (heap w2 p)) w2 of
                  (e, w4) \<Rightarrow>
                    if e \<noteq> None \<and> err (heap w4 p) = None then (e, w4)
                    else (None, upd p (\<lambda>x. x\<lparr>audioQueue := nil\<rparr>)
                                  (unregister (audioQueue (heap w4 p)) w4)))))"

definition register :: "nat \<Rightarrow> AudioQueueRef \<Rightarrow> world \<Rightarrow> world" where
  "register player a w =
     w\<lparr>thePlayers := (thePlayers w)\<lparr>players := (players (thePlayers w))(a \<mapsto> player)\<rparr>\<rparr>"

definition closeImpl0 :: "nat \<Rightarrow> world \<Rightarrow> error option \<times> world" where
  "closeImpl0 p w =
     (case closeAudioQueue0 p w of
        (e, w1) \<Rightarrow>
          (let w2 = (if e \<noteq> None \<and> err (heap w1 p) = None
                     then upd p (\<lambda>x. x\<lparr>err := e\<rparr>) w1 else w1);
               w3 = upd p (\<lambda>x. x\<lparr>state := playerClosed\<rparr>) w2
           in (err (heap w3 p), w3)))"

definition setErrorImpl0 :: "nat \<Rightarrow> error \<Rightarrow> world \<Rightarrow> world" where
  "setErrorImpl0 p e w = snd (closeImpl0 p (upd p (\<lambda>x. x\<lparr>err := Some e\<rparr>) w))"

definition playImpl_acquire0 :: "nat \<Rightarrow> world \<Rightarrow> bool \<times> world" where
  "playImpl_acquire0 p w =
     (if audioQueue (heap w p) = nil then
        (case Get w of
           (Inl e, w1) \<Rightarrow> (False, setErrorImpl0 p e w1)
         | (Inr (a, bs), w1) \<Rightarrow>
             (let w2 = upd p (\<lambda>x. x\<lparr>audioQueue := a, unqueuedBufs := bs\<rparr>) w1;
                  w3 = snd (native (AudioQueueSetParameter a
                              (AudioQueueParameterValue (volume (heap w2 p)))) w2)
              in (True, register p a w3)))
      else (True, w))"

definition resetImpl0 :: "nat \<Rightarrow> world \<Rightarrow> world" where
  "resetImpl0 p w =
     (if err (heap w p) \<noteq> None then w
      else if state (heap w p) = playerClosed then w
      else if audioQueue (heap w p) = nil then w
      else
        (case closeAudioQueue0 p w of
           (Some x, w1) \<Rightarrow> setErrorImpl0 p x w1
         | (None, w1) \<Rightarrow> upd p (\<lambda>x. x\<lparr>state := playerPaused, buf := [], eof := False\<rparr>) w1))"

definition locked :: "nat \<Rightarrow> world \<Rightarrow> world" where
  "locked p w = upd p (\<lambda>x. x\<lparr>mutex := True\<rparr>) w"

definition unlocked :: "nat \<Rightarrow> world \<Rightarrow> world" where
  "unlocked p w = upd p (\<lambda>x. x\<lparr>mutex := False\<rparr>) w"

definition idle :: "nat \<Rightarrow> world \<Rightarrow> bool" where
  "idle p w \<longleftrightarrow> \<not> mutex (heap w p) \<and> \<not> cond_L (thePlayers w)"

definition frame :: "nat \<Rightarrow> world \<Rightarrow> world \<Rightarrow> bool" where
  "frame p w w' \<longleftrightarrow>
     ctx w' = ctx w \<and> status w' = status w \<and> handle w' = handle w \<and>
     (\<forall>p'. p' \<noteq> p \<longrightarrow> heap w' p' = heap w p') \<and>
     mutex (heap w' p) = mutex (heap w p) \<and> volume (heap w' p) = volume (heap w p) \<and>
     (eof (heap w p) \<longrightarrow> eof (heap w' p)) \<and>
     cond_L (thePlayers w') = cond_L (thePlayers w) \<and>
     toResume (thePlayers w') \<subseteq> toResume (thePlayers w) \<and>
     prefix (calls w) (calls w')"

definition held :: "nat \<Rightarrow> world \<Rightarrow> bool" where
  "held p w \<longleftrightarrow> mutex (heap w p) \<and> \<not> cond_L (thePlayers w)"

text \<open>\<open>moves p w w'\<close>: \<open>w'\<close> comes from \<open>w\<close> by steps of the code working on player \<open>p\<close>
  with \<open>p.m\<close> held: a native call, an assignment to fields of \<open>p\<close> other than the queue
  handle (and never clearing \<open>eof\<close>), a \<open>closeAudioQueue\<close>, or the acquisition of a queue.\<close>

inductive moves :: "nat \<Rightarrow> world \<Rightarrow> world \<Rightarrow> bool" for p :: nat and w :: world where
  m_refl: "moves p w w"
| m_native: "moves p w w1 \<Longrightarrow> moves p w (snd (native c w1))"
| m_upd: "moves p w w1 \<Longrightarrow> audioQueue (f (heap w1 p)) = audioQueue (heap w1 p)
    \<Longrightarrow> mutex (f (heap w1 p)) = mutex (heap w1 p)
    \<Longrightarrow> volume (f (heap w1 p)) = volume (heap w1 p)
    \<Longrightarrow> (eof (heap w1 p) \<longrightarrow> eof (f (heap w1 p)))
    \<Longrightarrow> moves p w (upd p f w1)"
| m_close: "moves p w w1 \<Longrightarrow> moves p w (snd (closeAudioQueue0 p w1))"
| m_acquire: "moves p w w1 \<Longrightarrow> audioQueue (heap w1 p) = nil
    \<Longrightarrow> moves p w (snd (playImpl_acquire0 p w1))"


subsection \<open>Operations, reachable worlds, and the registry invariant\<close>

text \<open>\<open>all_idle\<close>: no mutex is held, as between two operations. An \<open>op\<close> is one call from
  outside: a public method of a player, the render callback for a queue and a buffer, one
  pass of the refill loop over a player, \<open>Suspend\<close> or \<open>Resume\<close>. \<open>visits\<close> says that the
  order given to \<open>suspend\<close> or \<open>resume\<close> lists what Go's \<open>range\<close> visits. A world is
  \<open>reachable\<close> when it comes from \<open>NewContext\<close> on a fresh world, whose native side never
  hands out nil or the same handle twice, by such operations.\<close>

definition all_idle :: "world \<Rightarrow> bool" where
  "all_idle w \<longleftrightarrow> \<not> cond_L (thePlayers w) \<and> (\<forall>p. \<not> mutex (heap w p))"

datatype op =
    OpPlay nat
  | OpPause nat
  | OpReset nat
  | OpClose nat
  | OpSetVolume nat float64
  | OpRender AudioQueueRef AudioQueueBufferRef
  | OpRefill nat
  | OpSuspend "AudioQueueRef list"
  | OpResume "nat list"

fun step :: "op \<Rightarrow> world \<Rightarrow> world option" where
  "step (OpPlay p) w = Play p w"
| "step (OpPause p) w = Pause p w"
| "step (OpReset p) w = Reset p w"
| "step (OpClose p) w = map_option snd (Close p w)"
| "step (OpSetVolume p v) w = SetVolume p v w"
| "step (OpRender a b) w = ebiten_readerdriver_render a b w"
| "step (OpRefill p) w = readSourceToBuffer p w"
| "step (OpSuspend order) w = map_option snd (suspend order w)"
| "step (OpResume order) w = map_option snd (resume order w)"

fun visits :: "op \<Rightarrow> world \<Rightarrow> bool" where
  "visits (OpSuspend order) w \<longleftrightarrow> distinct order \<and> set order = dom (players (thePlayers w))"
| "visits (OpResume order) w \<longleftrightarrow> distinct order \<and> set order = toResume (thePlayers w)"
| "visits x w \<longleftrightarrow> True"

definition fresh :: "world \<Rightarrow> bool" where
  "fresh w \<longleftrightarrow>
     unused (pool w) = [] \<and> used (pool w) = [] \<and> players (thePlayers w) = Map.empty \<and>
     toResume (thePlayers w) = {} \<and> \<not> cond_L (thePlayers w) \<and> calls w = [] \<and>
     (\<forall>p. \<exists>s. heap w p = NewPlayer s) \<and> inj (handle w) \<and> (\<forall>k. handle w k \<noteq> nil)"

inductive reachable :: "world \<Rightarrow> bool" where
  r_init: "fresh w \<Longrightarrow> fst (Prepare w) = None \<Longrightarrow> reachable (snd (Prepare w))"
| r_step: "reachable w \<Longrightarrow> visits x w \<Longrightarrow> step x w = Some w' \<Longrightarrow> reachable w'"

text \<open>The invariant behind C5: the native side is as above; every handle in the pool or held
  by a player was handed out by an earlier native call; the idle items have different
  handles, none of them held by a player; and \<open>players\<close> maps a handle to a player exactly
  when it is not nil and that player holds it.\<close>

definition reg_inv :: "world \<Rightarrow> bool" where
  "reg_inv w \<longleftrightarrow>
     inj (handle w) \<and> (\<forall>k. handle w k \<noteq> nil) \<and>
     (\<forall>q \<in> set (unused (pool w)) \<union> set (used (pool w)).
        \<exists>j < length (calls w). queue q = handle w j) \<and>
     (\<forall>p. audioQueue (heap w p) \<noteq> nil \<longrightarrow>
        (\<exists>j < length (calls w). audioQueue (heap w p) = handle w j)) \<and>
     distinct (map queue (unused (pool w))) \<and>
     (\<forall>p. audioQueue (heap w p) \<noteq> nil \<longrightarrow>
        audioQueue (heap w p) \<notin> queue ` set (unused (pool w))) \<and>
     (\<forall>a p. players (thePlayers w) a = Some p \<longleftrightarrow> a \<noteq> nil \<and> audioQueue (heap w p) = a)"
section \<open>Lemmas\<close>

subsection \<open>The pool\<close>

lemma pool_frame_refl [simp]: "pool_frame w w"
  by (simp add: pool_frame_def)

lemma pool_frame_trans: "pool_frame w w1 \<Longrightarrow> pool_frame w1 w2 \<Longrightarrow> pool_frame w w2"
  by (auto simp: pool_frame_def intro: prefix_order.trans)

lemma prefix_snoc_left: "prefix (xs @ [x]) ys \<Longrightarrow> prefix xs ys"
  by (metis append_prefixD)

lemma pool_frame_native: "pool_frame w (snd (native c w))"
  by (simp add: pool_frame_def native_def)

lemma allocateBuffers_frame:
  "pool_frame w (snd (allocateBuffers n q sz bs w)) \<and> pool (snd (allocateBuffers n q sz bs w)) = pool w"
proof (induction n arbitrary: bs w)
  case 0
  show ?case by simp
next
  case (Suc n)
  define w1 where "w1 = snd (native (AudioQueueAllocateBuffer q (of_nat sz)) w)"
  have 1: "pool_frame w w1" "pool w1 = pool w"
    by (simp_all add: w1_def native_def pool_frame_def)
  have n: "native (AudioQueueAllocateBuffer q (of_nat sz)) w = (status w (length (calls w)), w1)"
    by (simp add: w1_def native_def)
  from Suc.IH [where bs = "bs @ [newHandle w]" and w = w1] 1
  have 2: "pool_frame w (snd (allocateBuffers n q sz (bs @ [newHandle w]) w1))"
    "pool (snd (allocateBuffers n q sz (bs @ [newHandle w]) w1)) = pool w"
    by (auto intro: pool_frame_trans)
  show ?case
    by (simp add: n 1 2)
qed

lemma allocateBuffers_length:
  "allocateBuffers n q sz bs w = (Inr bs', w') \<Longrightarrow> length bs' = length bs + n"
proof (induction n arbitrary: bs w)
  case 0
  then show ?case by simp
next
  case (Suc n)
  then show ?case by (auto simp: native_def split: if_splits)
qed

lemma allocateBuffers_ok:
  "\<forall>k. status w k = noErr \<Longrightarrow> \<exists>bs'. fst (allocateBuffers n q sz bs w) = Inr bs'"
proof (induction n arbitrary: bs w)
  case 0
  show ?case by simp
next
  case (Suc n)
  have "\<forall>k. status (w\<lparr>calls := calls w @ [AudioQueueAllocateBuffer q (of_nat sz)]\<rparr>) k = noErr"
    using Suc.prems by simp
  from Suc.IH [OF this] show ?case
    using Suc.prems by (simp add: native_def)
qed

lemma freeBuffers_frame:
  "pool_frame w (snd (freeBuffers q bs w)) \<and> pool (snd (freeBuffers q bs w)) = pool w"
proof (induction bs arbitrary: w)
  case Nil
  show ?case by simp
next
  case (Cons b bs)
  define w1 where "w1 = snd (native (AudioQueueFreeBuffer q b) w)"
  have 1: "pool_frame w w1" "pool w1 = pool w"
    by (simp_all add: w1_def native_def pool_frame_def)
  have n: "native (AudioQueueFreeBuffer q b) w = (status w (length (calls w)), w1)"
    by (simp add: w1_def native_def)
  from Cons.IH [where w = w1] 1
  have 2: "pool_frame w (snd (freeBuffers q bs w1))" "pool (snd (freeBuffers q bs w1)) = pool w"
    by (auto intro: pool_frame_trans)
  show ?case
    by (simp add: n 1 2)
qed

lemma freeBuffers_calls:
  "\<exists>n \<le> length bs. calls (snd (freeBuffers q bs w)) = calls w @ map (AudioQueueFreeBuffer q) (take n bs)
      \<and> (fst (freeBuffers q bs w) = None \<longrightarrow> n = length bs)
      \<and> (fst (freeBuffers q bs w) \<noteq> None \<longrightarrow> 0 < n)"
proof (induction bs arbitrary: w)
  case Nil
  show ?case by simp
next
  case (Cons b bs)
  define w1 where "w1 = w\<lparr>calls := calls w @ [AudioQueueFreeBuffer q b]\<rparr>"
  obtain e w2 where r: "freeBuffers q bs w1 = (e, w2)"
    by (cases "freeBuffers q bs w1")
  show ?case
  proof (cases "status w (length (calls w)) = noErr")
    case True
    then have u: "freeBuffers q (b # bs) w = (e, w2)"
      by (simp add: native_def r [unfolded w1_def])
    from Cons.IH [of w1] obtain n where n: "n \<le> length bs"
      "calls w2 = calls w1 @ map (AudioQueueFreeBuffer q) (take n bs)"
      "e = None \<longrightarrow> n = length bs"
      unfolding r by auto
    have "Suc n \<le> length (b # bs)
      \<and> calls w2 = calls w @ map (AudioQueueFreeBuffer q) (take (Suc n) (b # bs))
      \<and> (e = None \<longrightarrow> Suc n = length (b # bs)) \<and> (e \<noteq> None \<longrightarrow> 0 < Suc n)"
      using n by (simp add: w1_def)
    then show ?thesis unfolding u fst_conv snd_conv by blast
  next
    case False
    then have u: "freeBuffers q (b # bs) w = (Some (FreeBufferFailed (status w (length (calls w)))), w1)"
      by (simp add: native_def w1_def)
    have "Suc 0 \<le> length (b # bs)
      \<and> calls w1 = calls w @ map (AudioQueueFreeBuffer q) (take (Suc 0) (b # bs))
      \<and> (0::nat) < Suc 0"
      by (simp add: w1_def)
    then show ?thesis unfolding u fst_conv snd_conv by blast
  qed
qed

lemma Get_frame: "pool_frame w (snd (Get w))"
proof (cases "unused (pool w)")
  case Nil
  define w1 where "w1 = snd (native AudioQueueNewOutput w)"
  have 1: "pool_frame w w1"
    by (simp add: w1_def native_def pool_frame_def)
  have n: "native AudioQueueNewOutput w = (status w (length (calls w)), w1)"
    by (simp add: w1_def native_def)
  define r where "r = allocateBuffers 2 (newHandle w) (oneBufferSize (ctx w1)) [] w1"
  have 2: "pool_frame w (snd r)"
    using 1 allocateBuffers_frame [of w1] unfolding r_def by (blast intro: pool_frame_trans)
  have 3: "pool_frame w ((snd r)\<lparr>pool := x\<rparr>)" for x
    using 2 by (simp add: pool_frame_def)
  show ?thesis
    using Nil 1 2 3
    by (cases r; cases "fst r") (simp_all add: Get_def n r_def [symmetric])
next
  case (Cons q rest)
  then show ?thesis by (simp add: Get_def pool_frame_def)
qed

lemma Get_unused:
  "length (unused (pool (snd (Get w)))) \<le> length (unused (pool w))"
proof (cases "unused (pool w)")
  case Nil
  let ?w1 = "w\<lparr>calls := calls w @ [AudioQueueNewOutput]\<rparr>"
  have "pool (snd (allocateBuffers 2 (newHandle w) (oneBufferSize (ctx w)) [] ?w1)) = pool ?w1"
    using allocateBuffers_frame by blast
  then show ?thesis
    using Nil by (auto simp: Get_def native_def split: prod.splits sum.splits)
next
  case (Cons q rest)
  then show ?thesis by (simp add: Get_def)
qed

lemma Get_counts:
  assumes "\<forall>k. status w k = noErr"
  shows "length (used (pool (snd (Get w)))) = Suc (length (used (pool w)))
       \<and> length (unused (pool (snd (Get w)))) = length (unused (pool w)) - 1
       \<and> (\<exists>r. fst (Get w) = Inr r)"
proof (cases "unused (pool w)")
  case Nil
  let ?w1 = "w\<lparr>calls := calls w @ [AudioQueueNewOutput]\<rparr>"
  let ?r = "allocateBuffers 2 (newHandle w) (oneBufferSize (ctx w)) [] ?w1"
  have p: "pool (snd ?r) = pool ?w1"
    using allocateBuffers_frame by blast
  have "\<forall>k. status ?w1 k = noErr" using assms by simp
  from allocateBuffers_ok [OF this] obtain bs' where "fst ?r = Inr bs'" by blast
  then show ?thesis
    using Nil p assms by (auto simp: Get_def native_def split: prod.splits sum.splits)
next
  case (Cons q rest)
  then show ?thesis by (simp add: Get_def)
qed

lemma PutLoop_skip:
  "a \<notin> queue ` set pre \<Longrightarrow> PutLoop a pre0 (pre @ post) w = PutLoop a (pre0 @ pre) post w"
  by (induction pre arbitrary: pre0) simp_all

lemma PutLoop_absent:
  "a \<notin> queue ` set post \<Longrightarrow> PutLoop a pre post w = (None, w)"
  by (induction post arbitrary: pre) simp_all

lemma split_first:
  "a \<in> queue ` set xs \<Longrightarrow> \<exists>pre q post. xs = pre @ q # post \<and> queue q = a \<and> a \<notin> queue ` set pre"
proof (induction xs)
  case Nil
  then show ?case by simp
next
  case (Cons x xs)
  show ?case
  proof (cases "queue x = a")
    case True
    then have "x # xs = [] @ x # xs \<and> queue x = a \<and> a \<notin> queue ` set []" by simp
    then show ?thesis by blast
  next
    case False
    with Cons obtain pre q post where "xs = pre @ q # post" "queue q = a" "a \<notin> queue ` set pre"
      by auto
    with False have "x # xs = (x # pre) @ q # post \<and> queue q = a \<and> a \<notin> queue ` set (x # pre)"
      by auto
    then show ?thesis by blast
  qed
qed

lemma Put_found:
  assumes "used (pool w) = pre @ q # post" "queue q \<notin> queue ` set pre"
  shows "Put (queue q) w =
    (if length (unused (pool w)) + length (pre @ post) < audioQueuePoolMaxItemNum
     then (None, w\<lparr>pool := (pool w)\<lparr>used := pre @ post, unused := unused (pool w) @ [q]\<rparr>\<rparr>)
     else case freeBuffers (queue q) (bufs q) (w\<lparr>pool := (pool w)\<lparr>used := pre @ post\<rparr>\<rparr>) of
            (Some e, w2) \<Rightarrow> (Some e, w2)
          | (None, w2) \<Rightarrow>
              (case native (AudioQueueDispose (queue q)) w2 of
                 (osstatus, w3) \<Rightarrow>
                   if osstatus \<noteq> noErr then (Some (DisposeFailed osstatus), w3)
                   else (None, w3)))"
proof -
  have "Put (queue q) w = PutLoop (queue q) pre (q # post) w"
    using assms PutLoop_skip [of "queue q" pre "[]" "q # post" w] by (simp add: Put_def)
  then show ?thesis
    by (simp add: Let_def)
qed

lemma Put_frame: "pool_frame w (snd (Put a w))"
proof (cases "a \<in> queue ` set (used (pool w))")
  case False
  then show ?thesis by (simp add: Put_def PutLoop_absent)
next
  case True
  from split_first [OF this] obtain pre q post where
    s: "used (pool w) = pre @ q # post" "queue q \<notin> queue ` set pre" and a: "a = queue q" by blast
  let ?w1 = "w\<lparr>pool := (pool w)\<lparr>used := pre @ post\<rparr>\<rparr>"
  obtain e w2 where fb: "freeBuffers (queue q) (bufs q) ?w1 = (e, w2)"
    by (cases "freeBuffers (queue q) (bufs q) ?w1")
  have "pool_frame ?w1 w2"
    using freeBuffers_frame [of ?w1 "queue q" "bufs q"] fb by simp
  then have "pool_frame w w2" "pool_frame w (snd (native (AudioQueueDispose (queue q)) w2))"
    by (auto simp: pool_frame_def native_def)
  moreover have "pool_frame w (w\<lparr>pool := x\<rparr>)" for x
    by (simp add: pool_frame_def)
  ultimately show ?thesis
    unfolding a by (cases e) (simp_all add: Put_found [OF s] fb case_prod_beta)
qed

lemma Put_teardown:
  assumes "used (pool w) = pre @ q # post" "queue q \<notin> queue ` set pre"
    and "\<not> length (unused (pool w)) + length (pre @ post) < audioQueuePoolMaxItemNum"
  shows "pool (snd (Put (queue q) w)) = (pool w)\<lparr>used := pre @ post\<rparr>
    \<and> (\<exists>n. calls (snd (Put (queue q) w)) =
           calls w @ take (Suc n) (map (AudioQueueFreeBuffer (queue q)) (bufs q) @ [AudioQueueDispose (queue q)]))
    \<and> (fst (Put (queue q) w) = None \<longrightarrow> calls (snd (Put (queue q) w)) =
           calls w @ map (AudioQueueFreeBuffer (queue q)) (bufs q) @ [AudioQueueDispose (queue q)])"
proof -
  let ?w1 = "w\<lparr>pool := (pool w)\<lparr>used := pre @ post\<rparr>\<rparr>"
  let ?all = "map (AudioQueueFreeBuffer (queue q)) (bufs q) @ [AudioQueueDispose (queue q)]"
  obtain e w2 where fb: "freeBuffers (queue q) (bufs q) ?w1 = (e, w2)"
    by (cases "freeBuffers (queue q) (bufs q) ?w1")
  have p: "pool w2 = (pool w)\<lparr>used := pre @ post\<rparr>"
    using freeBuffers_frame [of ?w1 "queue q" "bufs q"] fb by simp
  obtain n where n: "n \<le> length (bufs q)"
    "calls w2 = calls w @ map (AudioQueueFreeBuffer (queue q)) (take n (bufs q))"
    "e = None \<longrightarrow> n = length (bufs q)" "e \<noteq> None \<longrightarrow> 0 < n"
    using freeBuffers_calls [of "bufs q" "queue q" ?w1] fb by auto
  show ?thesis
  proof (cases e)
    case None
    have c: "calls w2 = calls w @ map (AudioQueueFreeBuffer (queue q)) (bufs q)"
      using n None by simp
    have r: "snd (Put (queue q) w) = w2\<lparr>calls := calls w2 @ [AudioQueueDispose (queue q)]\<rparr>"
      using assms(3) None by (simp add: Put_found [OF assms(1,2)] fb native_def)
    have 1: "pool (snd (Put (queue q) w)) = (pool w)\<lparr>used := pre @ post\<rparr>"
      by (simp add: r p)
    have 2: "calls (snd (Put (queue q) w)) = calls w @ ?all"
      by (simp add: r c)
    have "calls (snd (Put (queue q) w)) = calls w @ take (Suc (length (bufs q))) ?all"
      by (simp add: 2)
    then have 3: "\<exists>n. calls (snd (Put (queue q) w)) = calls w @ take (Suc n) ?all"
      by blast
    from 1 2 3 show ?thesis by blast
  next
    case (Some x)
    then obtain m where m: "n = Suc m" using n by (cases n) auto
    have r: "Put (queue q) w = (Some x, w2)"
      using assms(3) Some by (simp add: Put_found [OF assms(1,2)] fb)
    have "calls w2 = calls w @ take (Suc m) ?all"
      using n m by (simp add: take_map)
    then have 3: "\<exists>n. calls (snd (Put (queue q) w)) = calls w @ take (Suc n) ?all"
      using r by auto
    from r p 3 show ?thesis by simp
  qed
qed

lemma Put_unused:
  assumes le: "length (unused (pool w)) \<le> audioQueuePoolMaxItemNum"
  shows "length (unused (pool (snd (Put a w)))) \<le> audioQueuePoolMaxItemNum"
proof (cases "a \<in> queue ` set (used (pool w))")
  case False
  with le show ?thesis by (simp add: Put_def PutLoop_absent)
next
  case True
  from split_first [OF True] obtain pre q post where
    s: "used (pool w) = pre @ q # post" "queue q \<notin> queue ` set pre" and a: "a = queue q" by blast
  show ?thesis
  proof (cases "length (unused (pool w)) + length (pre @ post) < audioQueuePoolMaxItemNum")
    case True
    then show ?thesis unfolding a by (simp add: Put_found [OF s])
  next
    case False
    from Put_teardown [OF s False] le show ?thesis unfolding a by simp
  qed
qed

lemma Put_resident: "resident (snd (Put a w)) \<le> resident w"
proof (cases "a \<in> queue ` set (used (pool w))")
  case False
  then show ?thesis by (simp add: Put_def PutLoop_absent)
next
  case True
  from split_first [OF True] obtain pre q post where
    s: "used (pool w) = pre @ q # post" "queue q \<notin> queue ` set pre" and a: "a = queue q" by blast
  show ?thesis
  proof (cases "length (unused (pool w)) + length (pre @ post) < audioQueuePoolMaxItemNum")
    case True
    then show ?thesis unfolding a using s by (simp add: Put_found [OF s] resident_def)
  next
    case False
    from Put_teardown [OF s False] s show ?thesis unfolding a by (simp add: resident_def)
  qed
qed

lemma pool_run_unused:
  "length (unused (pool w)) \<le> audioQueuePoolMaxItemNum
   \<Longrightarrow> length (unused (pool (pool_run ops w))) \<le> audioQueuePoolMaxItemNum"
proof (induction ops arbitrary: w)
  case Nil
  then show ?case by simp
next
  case (Cons x ops)
  show ?case
  proof (cases x)
    case PoolGet
    have "length (unused (pool (snd (Get w)))) \<le> audioQueuePoolMaxItemNum"
      using Get_unused [of w] Cons.prems by simp
    from Cons.IH [OF this] PoolGet show ?thesis by simp
  next
    case (PoolPut a)
    from Cons.IH [OF Put_unused [OF Cons.prems]] PoolPut show ?thesis by simp
  qed
qed

lemma Get_status: "status (snd (Get w)) = status w"
  using Get_frame [of w] by (simp add: pool_frame_def)

lemma Gets_counts:
  "\<forall>k. status w k = noErr \<Longrightarrow>
   length (used (pool (pool_run (replicate n PoolGet) w))) = length (used (pool w)) + n
   \<and> length (unused (pool (pool_run (replicate n PoolGet) w))) = length (unused (pool w)) - n"
proof (induction n arbitrary: w)
  case 0
  show ?case by simp
next
  case (Suc n)
  let ?g = "snd (Get w)"
  have "\<forall>k. status ?g k = noErr"
    using Suc.prems by (simp add: Get_status)
  from Suc.IH [OF this] have
    1: "length (used (pool (pool_run (replicate n PoolGet) ?g))) = length (used (pool ?g)) + n"
    and 2: "length (unused (pool (pool_run (replicate n PoolGet) ?g))) = length (unused (pool ?g)) - n"
    by blast+
  from Get_counts [OF Suc.prems] have
    3: "length (used (pool ?g)) = Suc (length (used (pool w)))"
    and 4: "length (unused (pool ?g)) = length (unused (pool w)) - 1"
    by blast+
  have 5: "pool_run (replicate (Suc n) PoolGet) w = pool_run (replicate n PoolGet) ?g"
    by simp
  show ?case
    unfolding 5 1 2 3 4 by simp
qed

lemma PrepareLoop_counts:
  "\<forall>k. status w k = noErr \<Longrightarrow> unused (pool w) = [] \<Longrightarrow>
   fst (PrepareLoop n w) = None
   \<and> length (used (pool (snd (PrepareLoop n w)))) = length (used (pool w)) + n
   \<and> unused (pool (snd (PrepareLoop n w))) = []
   \<and> status (snd (PrepareLoop n w)) = status w"
proof (induction n arbitrary: w)
  case 0
  then show ?case by simp
next
  case (Suc n)
  obtain x g where g: "Get w = (x, g)" by (cases "Get w")
  have gs: "status g = status w"
    using Get_status [of w] by (simp add: g)
  then have s: "\<forall>k. status g k = noErr"
    using Suc.prems(1) by simp
  from Get_counts [OF Suc.prems(1)] obtain r where
    3: "length (used (pool g)) = Suc (length (used (pool w)))"
    and 4: "length (unused (pool g)) = length (unused (pool w)) - 1"
    and r: "x = Inr r"
    by (auto simp: g)
  have u: "unused (pool g) = []"
    using 4 Suc.prems(2) by simp
  have 5: "PrepareLoop (Suc n) w = PrepareLoop n g"
    by (simp add: g r)
  from Suc.IH [OF s u] show ?case
    unfolding 5 3 gs by simp
qed

subsection \<open>The retry of AudioQueuePrime\<close>

lemma status_distinct [simp]:
  "AVAudioSessionErrorCodeSiriIsRecording \<noteq> noErr"
  "noErr \<noteq> AVAudioSessionErrorCodeSiriIsRecording"
  "kAudioQueueErr_EnqueueDuringReset \<noteq> noErr"
  "noErr \<noteq> kAudioQueueErr_EnqueueDuringReset"
  by (simp_all add: noErr_def AVAudioSessionErrorCodeSiriIsRecording_def kAudioQueueErr_EnqueueDuringReset_def)

lemma primeLoop_returns:
  "status w (length (calls w) + k) \<noteq> AVAudioSessionErrorCodeSiriIsRecording
   \<Longrightarrow> \<exists>r. primeLoop a w = Some r"
proof (induction k arbitrary: w)
  case 0
  then show ?case by (subst primeLoop.simps) (simp add: native_def)
next
  case (Suc k)
  have "status (w\<lparr>calls := calls w @ [AudioQueuePrime a]\<rparr>)
          (length (calls (w\<lparr>calls := calls w @ [AudioQueuePrime a]\<rparr>)) + k)
        \<noteq> AVAudioSessionErrorCodeSiriIsRecording"
    using Suc.prems by simp
  from Suc.IH [OF this] show ?case
    by (subst primeLoop.simps) (simp add: native_def)
qed

lemma primeLoop_needs:
  "primeLoop a w = Some r
   \<Longrightarrow> \<exists>k. status w (length (calls w) + k) \<noteq> AVAudioSessionErrorCodeSiriIsRecording"
proof (induction a w r rule: primeLoop.raw_induct [rotated 1, consumes 1])
  case (1 f a w r)
  show ?case
  proof (cases "status w (length (calls w)) = AVAudioSessionErrorCodeSiriIsRecording")
    case True
    with 1(2) have "f a (w\<lparr>calls := calls w @ [AudioQueuePrime a]\<rparr>) = Some r"
      by (simp add: native_def)
    from 1(1) [OF this] obtain k where
      "status w (Suc (length (calls w)) + k) \<noteq> AVAudioSessionErrorCodeSiriIsRecording"
      by auto
    then have "status w (length (calls w) + Suc k) \<noteq> AVAudioSessionErrorCodeSiriIsRecording"
      by simp
    then show ?thesis by blast
  next
    case False
    then have "status w (length (calls w) + 0) \<noteq> AVAudioSessionErrorCodeSiriIsRecording"
      by simp
    then show ?thesis by blast
  qed
qed

lemma primeLoop_forever:
  "\<forall>k. status w (length (calls w) + k) = AVAudioSessionErrorCodeSiriIsRecording
   \<Longrightarrow> primeLoop a w = None"
  using primeLoop_needs [of a w] by (cases "primeLoop a w") auto

lemma allocateBuffers_2:
  "allocateBuffers 2 q sz bs w = allocateBuffers (Suc (Suc 0)) q sz bs w"
  by (simp add: numeral_2_eq_2)

lemmas run_defs = allocateBuffers_2 Play_def playImpl_def playImpl_fill_def playImpl_drain_def
  playImpl_start_def playImpl_acquire_def Lock_def Unlock_def L_Lock_def L_Unlock_def
  add_def remove_def get_def Get_def Put_def native_def newHandle_def upd_def NewPlayer_def Read_def appendBufferImpl_def
  blank_def ctx0_def


subsection \<open>The bound of the pool and the teardown of \<open>Put\<close>\<close>

lemma Get_used_le:
  "length (used (pool (snd (Get w)))) \<le> Suc (length (used (pool w)))"
proof (cases "unused (pool w)")
  case Nil
  let ?w1 = "w\<lparr>calls := calls w @ [AudioQueueNewOutput]\<rparr>"
  have "pool (snd (allocateBuffers 2 (newHandle w) (oneBufferSize (ctx w)) [] ?w1)) = pool ?w1"
    using allocateBuffers_frame by blast
  then show ?thesis
    using Nil by (auto simp: Get_def native_def split: prod.splits sum.splits)
next
  case (Cons q rest)
  then show ?thesis by (simp add: Get_def)
qed

lemma Get_resident_Cons:
  "unused (pool w) \<noteq> [] \<Longrightarrow> resident (snd (Get w)) = resident w"
  by (cases "unused (pool w)") (simp_all add: Get_def resident_def)

lemma Get_bounded:
  assumes "resident w \<le> n \<or> unused (pool w) = []"
  shows "resident (snd (Get w)) \<le> n \<or> unused (pool (snd (Get w))) = []"
proof (cases "unused (pool w) = []")
  case True
  then have "unused (pool (snd (Get w))) = []"
    using Get_unused [of w] by simp
  then show ?thesis by simp
next
  case False
  with assms Get_resident_Cons [OF False] show ?thesis by simp
qed

lemma Put_bounded:
  assumes "resident w \<le> audioQueuePoolMaxItemNum \<or> unused (pool w) = []"
  shows "resident (snd (Put a w)) \<le> audioQueuePoolMaxItemNum \<or> unused (pool (snd (Put a w))) = []"
proof (cases "a \<in> queue ` set (used (pool w))")
  case False
  with assms show ?thesis by (simp add: Put_def PutLoop_absent)
next
  case True
  from split_first [OF True] obtain pre q post where
    s: "used (pool w) = pre @ q # post" "queue q \<notin> queue ` set pre" and a: "a = queue q" by blast
  show ?thesis
  proof (cases "length (unused (pool w)) + length (pre @ post) < audioQueuePoolMaxItemNum")
    case True
    then show ?thesis unfolding a by (simp add: Put_found [OF s] resident_def)
  next
    case False
    have "pool (snd (Put (queue q) w)) = (pool w)\<lparr>used := pre @ post\<rparr>"
      using Put_teardown [OF s False] by blast
    with assms s(1) show ?thesis unfolding a by (auto simp: resident_def)
  qed
qed

lemma pool_run_bounded:
  "resident w \<le> audioQueuePoolMaxItemNum \<or> unused (pool w) = []
   \<Longrightarrow> resident (pool_run ops w) \<le> audioQueuePoolMaxItemNum \<or> unused (pool (pool_run ops w)) = []"
proof (induction ops arbitrary: w)
  case Nil
  then show ?case by simp
next
  case (Cons x ops)
  show ?case
  proof (cases x)
    case PoolGet
    from Cons.IH [OF Get_bounded [OF Cons.prems]] PoolGet show ?thesis by simp
  next
    case (PoolPut a)
    from Cons.IH [OF Put_bounded [OF Cons.prems]] PoolPut show ?thesis by simp
  qed
qed

lemma PrepareLoop_bounded:
  "unused (pool w) = [] \<Longrightarrow>
   unused (pool (snd (PrepareLoop n w))) = []
   \<and> length (used (pool (snd (PrepareLoop n w)))) \<le> length (used (pool w)) + n"
proof (induction n arbitrary: w)
  case 0
  then show ?case by simp
next
  case (Suc n)
  obtain x g where g: "Get w = (x, g)" by (cases "Get w")
  have u: "unused (pool g) = []"
    using Get_unused [of w] Suc.prems by (simp add: g)
  have l: "length (used (pool g)) \<le> Suc (length (used (pool w)))"
    using Get_used_le [of w] by (simp add: g)
  show ?case
  proof (cases x)
    case (Inl e)
    then show ?thesis using u l by (simp add: g)
  next
    case (Inr r)
    then have 5: "PrepareLoop (Suc n) w = PrepareLoop n g"
      by (simp add: g)
    from Suc.IH [OF u] l show ?thesis
      unfolding 5 by simp
  qed
qed

lemma Prepare_bounded:
  assumes "unused (pool w) = []" "used (pool w) = []"
  shows "resident (snd (Prepare w)) \<le> audioQueuePoolMaxItemNum \<or> unused (pool (snd (Prepare w))) = []"
proof -
  obtain e w1 where p: "PrepareLoop audioQueuePoolMaxItemNum w = (e, w1)"
    by (cases "PrepareLoop audioQueuePoolMaxItemNum w")
  from PrepareLoop_bounded [OF assms(1), of audioQueuePoolMaxItemNum]
  have b: "unused (pool w1) = []" "length (used (pool w1)) \<le> audioQueuePoolMaxItemNum"
    by (simp_all add: p assms(2))
  show ?thesis
    using b by (cases e) (simp_all add: Prepare_def p resident_def)
qed

lemma freeBuffers_ok:
  "\<forall>i<length bs. status w (length (calls w) + i) = noErr \<Longrightarrow>
   freeBuffers q bs w = (None, w\<lparr>calls := calls w @ map (AudioQueueFreeBuffer q) bs\<rparr>)"
proof (induction bs arbitrary: w)
  case Nil
  show ?case by simp
next
  case (Cons b bs)
  define w1 where "w1 = w\<lparr>calls := calls w @ [AudioQueueFreeBuffer q b]\<rparr>"
  have 0: "status w (length (calls w)) = noErr"
    using Cons.prems [rule_format, of 0] by simp
  have "\<forall>i<length bs. status w1 (length (calls w1) + i) = noErr"
    using Cons.prems by (auto simp: w1_def)
  from Cons.IH [OF this] have "freeBuffers q bs w1 =
      (None, w\<lparr>calls := calls w @ map (AudioQueueFreeBuffer q) (b # bs)\<rparr>)"
    by (simp add: w1_def)
  then show ?case
    using 0 by (simp add: native_def w1_def)
qed

lemma freeBuffers_fail:
  "n < length bs \<Longrightarrow> \<forall>i<n. status w (length (calls w) + i) = noErr
   \<Longrightarrow> status w (length (calls w) + n) \<noteq> noErr \<Longrightarrow>
   freeBuffers q bs w =
     (Some (FreeBufferFailed (status w (length (calls w) + n))),
      w\<lparr>calls := calls w @ map (AudioQueueFreeBuffer q) (take (Suc n) bs)\<rparr>)"
proof (induction bs arbitrary: w n)
  case Nil
  then show ?case by simp
next
  case (Cons b bs)
  define w1 where "w1 = w\<lparr>calls := calls w @ [AudioQueueFreeBuffer q b]\<rparr>"
  show ?case
  proof (cases n)
    case 0
    with Cons.prems show ?thesis by (simp add: native_def)
  next
    case (Suc m)
    have 0: "status w (length (calls w)) = noErr"
      using Cons.prems(2) [rule_format, of 0] Suc by simp
    have 1: "m < length bs" using Cons.prems(1) Suc by simp
    have 2: "\<forall>i<m. status w1 (length (calls w1) + i) = noErr"
      using Cons.prems(2) Suc by (auto simp: w1_def)
    have 3: "status w1 (length (calls w1) + m) \<noteq> noErr"
      using Cons.prems(3) Suc by (simp add: w1_def)
    from Cons.IH [OF 1 2 3] have "freeBuffers q bs w1 =
      (Some (FreeBufferFailed (status w (length (calls w) + n))),
       w\<lparr>calls := calls w @ map (AudioQueueFreeBuffer q) (take (Suc n) (b # bs))\<rparr>)"
      by (simp add: w1_def Suc)
    then show ?thesis
      using 0 by (simp add: native_def w1_def)
  qed
qed

lemma Put_teardown_ok:
  assumes "used (pool w) = pre @ q # post" "queue q \<notin> queue ` set pre"
    and "\<not> length (unused (pool w)) + length (pre @ post) < audioQueuePoolMaxItemNum"
    and "\<forall>i\<le>length (bufs q). status w (length (calls w) + i) = noErr"
  shows "Put (queue q) w =
    (None, w\<lparr>pool := (pool w)\<lparr>used := pre @ post\<rparr>,
             calls := calls w @ map (AudioQueueFreeBuffer (queue q)) (bufs q)
                        @ [AudioQueueDispose (queue q)]\<rparr>)"
proof -
  define w1 where "w1 = w\<lparr>pool := (pool w)\<lparr>used := pre @ post\<rparr>\<rparr>"
  have "\<forall>i<length (bufs q). status w1 (length (calls w1) + i) = noErr"
    using assms(4) by (simp add: w1_def)
  from freeBuffers_ok [OF this, of "queue q"]
  have f: "freeBuffers (queue q) (bufs q) w1 =
      (None, w1\<lparr>calls := calls w1 @ map (AudioQueueFreeBuffer (queue q)) (bufs q)\<rparr>)" .
  have d: "status w (length (calls w) + length (bufs q)) = noErr"
    using assms(4) by simp
  show ?thesis
    using assms(3) d
    by (simp add: Put_found [OF assms(1,2)] w1_def [symmetric] f native_def)
       (simp add: w1_def)
qed

lemma Put_teardown_fail:
  assumes "used (pool w) = pre @ q # post" "queue q \<notin> queue ` set pre"
    and "\<not> length (unused (pool w)) + length (pre @ post) < audioQueuePoolMaxItemNum"
    and "n \<le> length (bufs q)" "\<forall>i<n. status w (length (calls w) + i) = noErr"
    and "status w (length (calls w) + n) \<noteq> noErr"
  shows "Put (queue q) w =
    (Some (if n < length (bufs q) then FreeBufferFailed (status w (length (calls w) + n))
           else DisposeFailed (status w (length (calls w) + n))),
     w\<lparr>pool := (pool w)\<lparr>used := pre @ post\<rparr>,
       calls := calls w @ take (Suc n) (map (AudioQueueFreeBuffer (queue q)) (bufs q)
                                        @ [AudioQueueDispose (queue q)])\<rparr>)"
proof (cases "n < length (bufs q)")
  case True
  define w1 where "w1 = w\<lparr>pool := (pool w)\<lparr>used := pre @ post\<rparr>\<rparr>"
  have 2: "\<forall>i<n. status w1 (length (calls w1) + i) = noErr"
    using assms(5) by (simp add: w1_def)
  have 3: "status w1 (length (calls w1) + n) \<noteq> noErr"
    using assms(6) by (simp add: w1_def)
  from freeBuffers_fail [OF True 2 3, of "queue q"]
  have f: "freeBuffers (queue q) (bufs q) w1 =
      (Some (FreeBufferFailed (status w (length (calls w) + n))),
       w1\<lparr>calls := calls w1 @ map (AudioQueueFreeBuffer (queue q)) (take (Suc n) (bufs q))\<rparr>)"
    by (simp add: w1_def)
  show ?thesis
    using assms(3) True
    by (simp add: Put_found [OF assms(1,2)] w1_def [symmetric] f)
       (simp add: w1_def take_map)
next
  case False
  then have n: "n = length (bufs q)" using assms(4) by simp
  define w1 where "w1 = w\<lparr>pool := (pool w)\<lparr>used := pre @ post\<rparr>\<rparr>"
  have "\<forall>i<length (bufs q). status w1 (length (calls w1) + i) = noErr"
    using assms(5) by (simp add: w1_def n)
  from freeBuffers_ok [OF this, of "queue q"]
  have f: "freeBuffers (queue q) (bufs q) w1 =
      (None, w1\<lparr>calls := calls w1 @ map (AudioQueueFreeBuffer (queue q)) (bufs q)\<rparr>)" .
  have d: "status w (length (calls w) + length (bufs q)) \<noteq> noErr"
    using assms(6) by (simp add: n)
  show ?thesis
    using assms(3) d
    by (simp add: Put_found [OF assms(1,2)] w1_def [symmetric] f native_def n)
       (simp add: w1_def)
qed

lemma Get_new:
  assumes "unused (pool w) = []"
    and "\<forall>i<3. status w (length (calls w) + i) = noErr"
  shows "Get w =
    (Inr (handle w (length (calls w)),
          [handle w (length (calls w) + 1), handle w (length (calls w) + 2)]),
     w\<lparr>calls := calls w @
          [AudioQueueNewOutput,
           AudioQueueAllocateBuffer (handle w (length (calls w))) (of_nat (oneBufferSize (ctx w))),
           AudioQueueAllocateBuffer (handle w (length (calls w))) (of_nat (oneBufferSize (ctx w)))],
       pool := (pool w)\<lparr>used := used (pool w) @
          [\<lparr>queue = handle w (length (calls w)),
            bufs = [handle w (length (calls w) + 1), handle w (length (calls w) + 2)]\<rparr>]\<rparr>\<rparr>)"
proof -
  have s: "status w (length (calls w)) = noErr" "status w (Suc (length (calls w))) = noErr"
    "status w (Suc (Suc (length (calls w)))) = noErr"
    using assms(2) [rule_format, of 0] assms(2) [rule_format, of 1] assms(2) [rule_format, of 2]
    by simp_all
  show ?thesis
    using assms(1) s
    by (simp add: Get_def native_def newHandle_def allocateBuffers_2)
qed

lemma Gets_new:
  "unused (pool w) = [] \<Longrightarrow> \<forall>i<3 * n. status w (length (calls w) + i) = noErr \<Longrightarrow>
   unused (pool (pool_run (replicate n PoolGet) w)) = []
   \<and> used (pool (pool_run (replicate n PoolGet) w)) =
       used (pool w) @ map (\<lambda>j. \<lparr>queue = handle w (length (calls w) + 3 * j),
                                 bufs = [handle w (length (calls w) + 3 * j + 1),
                                         handle w (length (calls w) + 3 * j + 2)]\<rparr>) [0..<n]
   \<and> length (calls (pool_run (replicate n PoolGet) w)) = length (calls w) + 3 * n
   \<and> status (pool_run (replicate n PoolGet) w) = status w
   \<and> handle (pool_run (replicate n PoolGet) w) = handle w"
proof (induction n arbitrary: w)
  case 0
  then show ?case by simp
next
  case (Suc n)
  have 3: "\<forall>i<3. status w (length (calls w) + i) = noErr"
    using Suc.prems(2) by simp
  note g = Get_new [OF Suc.prems(1) 3]
  define g1 where "g1 = snd (Get w)"
  have f: "unused (pool g1) = []" "length (calls g1) = length (calls w) + 3"
    "status g1 = status w" "handle g1 = handle w"
    "used (pool g1) = used (pool w) @
          [\<lparr>queue = handle w (length (calls w)),
            bufs = [handle w (length (calls w) + 1), handle w (length (calls w) + 2)]\<rparr>]"
    using Suc.prems(1) by (simp_all add: g1_def g)
  have "\<forall>i<3 * n. status g1 (length (calls g1) + i) = noErr"
  proof (intro allI impI)
    fix i assume "i < 3 * n"
    then have "3 + i < 3 * Suc n" by simp
    from Suc.prems(2) [rule_format, OF this] show "status g1 (length (calls g1) + i) = noErr"
      by (simp add: f add.assoc)
  qed
  note ih = Suc.IH [OF f(1) this]
  have m: "map (\<lambda>j. \<lparr>queue = handle w (length (calls w) + 3 * j),
                     bufs = [handle w (length (calls w) + 3 * j + 1),
                             handle w (length (calls w) + 3 * j + 2)]\<rparr>) [0..<Suc n]
      = \<lparr>queue = handle w (length (calls w)),
          bufs = [handle w (length (calls w) + 1), handle w (length (calls w) + 2)]\<rparr>
        # map (\<lambda>j. \<lparr>queue = handle g1 (length (calls g1) + 3 * j),
                     bufs = [handle g1 (length (calls g1) + 3 * j + 1),
                             handle g1 (length (calls g1) + 3 * j + 2)]\<rparr>) [0..<n]"
    unfolding f by (simp add: map_upt_Suc add_ac del: upt_Suc)
  have r: "pool_run (replicate (Suc n) PoolGet) w = pool_run (replicate n PoolGet) g1"
    by (simp add: g1_def)
  show ?case
    unfolding r using ih unfolding m by (simp add: f)
qed
subsection \<open>Mutexes and frames\<close>

lemma mutex_True_triv [simp]: "mutex x \<Longrightarrow> x\<lparr>mutex := True\<rparr> = x"
  by (cases x) simp

lemma mutex_False_triv [simp]: "\<not> mutex x \<Longrightarrow> x\<lparr>mutex := False\<rparr> = x"
  by (cases x) simp

lemma cond_L_False_triv [simp]: "\<not> cond_L t \<Longrightarrow> t\<lparr>cond_L := False\<rparr> = t"
  by (cases t) simp

lemma upd_simps [simp]:
  "heap (upd p f w) = (heap w)(p := f (heap w p))"
  "ctx (upd p f w) = ctx w" "pool (upd p f w) = pool w" "thePlayers (upd p f w) = thePlayers w"
  "status (upd p f w) = status w" "handle (upd p f w) = handle w" "calls (upd p f w) = calls w"
  by (simp_all add: upd_def)

lemma upd_upd [simp]: "upd p f (upd p g w) = upd p (\<lambda>x. f (g x)) w"
  by (simp add: upd_def)

lemma upd_triv: "f (heap w p) = heap w p \<Longrightarrow> upd p f w = w"
  by (simp add: upd_def)

lemma remove_free:
  "\<not> cond_L (thePlayers w) \<Longrightarrow> remove a w = Some (unregister a w)"
  by (simp add: remove_def unregister_def L_Lock_def L_Unlock_def split: option.splits)

lemma Unlock_Lock_native:
  "mutex (heap w p) \<Longrightarrow>
   Unlock p w \<bind> (\<lambda>w1. case native c w1 of (st, w2) \<Rightarrow> Lock p w2 \<bind> f st)
   = (case native c w of (st, w2) \<Rightarrow> f st w2)"
  by (simp add: Unlock_def Lock_def native_def upd_def)

lemma native_fields [simp]:
  "fst (native c w) = status w (length (calls w))"
  "heap (snd (native c w)) = heap w" "thePlayers (snd (native c w)) = thePlayers w"
  "ctx (snd (native c w)) = ctx w" "status (snd (native c w)) = status w"
  "handle (snd (native c w)) = handle w" "pool (snd (native c w)) = pool w"
  "calls (snd (native c w)) = calls w @ [c]"
  by (simp_all add: native_def)

lemma Put_fields [simp]:
  "heap (snd (Put a w)) = heap w" "thePlayers (snd (Put a w)) = thePlayers w"
  "ctx (snd (Put a w)) = ctx w" "status (snd (Put a w)) = status w"
  "handle (snd (Put a w)) = handle w"
  using Put_frame [of w a] by (simp_all add: pool_frame_def)

lemma Get_fields [simp]:
  "heap (snd (Get w)) = heap w" "thePlayers (snd (Get w)) = thePlayers w"
  "ctx (snd (Get w)) = ctx w" "status (snd (Get w)) = status w"
  "handle (snd (Get w)) = handle w"
  using Get_frame [of w] by (simp_all add: pool_frame_def)

lemma unregister_fields [simp]:
  "heap (unregister a w) = heap w" "pool (unregister a w) = pool w"
  "ctx (unregister a w) = ctx w" "status (unregister a w) = status w"
  "handle (unregister a w) = handle w" "calls (unregister a w) = calls w"
  "cond_L (thePlayers (unregister a w)) = cond_L (thePlayers w)"
  by (simp_all add: unregister_def split: option.splits)

lemma Lock_native_swap:
  "upd p f (snd (native c w)) = snd (native c (upd p f w))"
  by (simp add: native_def upd_def)

lemma Unlock_held: "mutex (heap w p) \<Longrightarrow> Unlock p w = Some (upd p (\<lambda>x. x\<lparr>mutex := False\<rparr>) w)"
  by (simp add: Unlock_def)

lemma Lock_free: "\<not> mutex (heap w p) \<Longrightarrow> Lock p w = Some (upd p (\<lambda>x. x\<lparr>mutex := True\<rparr>) w)"
  by (simp add: Lock_def)

lemma native_unlocked:
  "native c (upd p (\<lambda>x. x\<lparr>mutex := False\<rparr>) w)
   = (status w (length (calls w)), upd p (\<lambda>x. x\<lparr>mutex := False\<rparr>) (snd (native c w)))"
  by (simp add: native_def upd_def)

lemma relock:
  "mutex (heap w p) \<Longrightarrow> Lock p (upd p (\<lambda>x. x\<lparr>mutex := False\<rparr>) w) = Some w"
  by (simp add: Lock_def upd_def)

lemma unregister_upd: "unregister a (upd p f w) = upd p f (unregister a w)"
  by (simp add: unregister_def upd_def split: option.splits)

lemma closeAudioQueue_held:
  assumes "held p w"
  shows "closeAudioQueue p w = Some (closeAudioQueue0 p w)"
  using assms
  by (simp add: closeAudioQueue_def closeAudioQueue0_def held_def Unlock_held native_unlocked
      relock remove_free unregister_upd case_prod_beta)

lemma frame_refl [simp]: "frame p w w"
  by (simp add: frame_def)

lemma frame_trans: "frame p w w1 \<Longrightarrow> frame p w1 w2 \<Longrightarrow> frame p w w2"
  unfolding frame_def by (intro conjI; (elim conjE)?; simp?; (blast intro: prefix_order.trans)?)

lemma frame_upd:
  "mutex (f (heap w p)) = mutex (heap w p) \<Longrightarrow> volume (f (heap w p)) = volume (heap w p)
   \<Longrightarrow> (eof (heap w p) \<longrightarrow> eof (f (heap w p)))
   \<Longrightarrow> frame p w (upd p f w)"
  by (simp add: frame_def)

lemma frame_native: "frame p w (snd (native c w))"
  by (simp add: frame_def)

lemma frame_Put: "frame p w (snd (Put a w))"
  using Put_frame [of w a] by (simp add: frame_def pool_frame_def)

lemma frame_Get: "frame p w (snd (Get w))"
  using Get_frame [of w] by (simp add: frame_def pool_frame_def)

lemma frame_heap_other: "frame p w w' \<Longrightarrow> p' \<noteq> p \<Longrightarrow> heap w' p' = heap w p'"
  by (simp add: frame_def)

lemma frame_unregister: "frame p w (unregister a w)"
  by (simp add: frame_def unregister_def split: option.splits)

lemma frame_register: "frame p w (register p' a w)"
  by (simp add: frame_def register_def)

lemma frame_closeAudioQueue0: "frame p w (snd (closeAudioQueue0 p w))"
proof -
  let ?q = "audioQueue (heap w p)"
  let ?w2 = "snd (native (AudioQueueStop ?q) w)"
  let ?w4 = "snd (Put ?q ?w2)"
  have 2: "frame p w ?w2" by (rule frame_native)
  have 4: "frame p w ?w4" using 2 frame_Put by (rule frame_trans)
  have 5: "frame p w (unregister ?q ?w4)" using 4 frame_unregister by (rule frame_trans)
  have 6: "frame p w (upd p (\<lambda>x. x\<lparr>audioQueue := nil\<rparr>) (unregister ?q ?w4))"
    using 5 by (rule frame_trans) (simp add: frame_upd)
  show ?thesis
    using 2 4 6 by (simp add: closeAudioQueue0_def case_prod_beta)
qed

lemma frame_closeImpl0: "frame p w (snd (closeImpl0 p w))"
proof -
  let ?w1 = "snd (closeAudioQueue0 p w)"
  have 1: "frame p w ?w1" by (rule frame_closeAudioQueue0)
  have 2: "frame p w (upd p f ?w1)"
    if "\<And>x. mutex (f x) = mutex x" "\<And>x. volume (f x) = volume x"
      "\<And>x. eof x \<longrightarrow> eof (f x)" for f
    using 1 by (rule frame_trans) (simp add: frame_upd that)
  show ?thesis
    by (simp add: closeImpl0_def case_prod_beta Let_def 2)
qed

lemma frame_setErrorImpl0: "frame p w (setErrorImpl0 p e w)"
proof -
  have "frame p w (upd p (\<lambda>x. x\<lparr>err := Some e\<rparr>) w)" by (simp add: frame_upd)
  then show ?thesis
    unfolding setErrorImpl0_def using frame_closeImpl0 by (rule frame_trans)
qed

lemma held_frame: "frame p w w' \<Longrightarrow> held p w' = held p w"
  by (simp add: frame_def held_def)

lemma closeImpl_held:
  assumes "held p w"
  shows "closeImpl p w = Some (closeImpl0 p w)"
  using assms
  by (simp add: closeImpl_def closeImpl0_def closeAudioQueue_held case_prod_beta Let_def)

lemma setErrorImpl_held:
  assumes "held p w"
  shows "setErrorImpl p e w = Some (setErrorImpl0 p e w)"
proof -
  have "held p (upd p (\<lambda>x. x\<lparr>err := Some e\<rparr>) w)"
    using assms by (simp add: held_def)
  then show ?thesis
    by (simp add: setErrorImpl_def setErrorImpl0_def closeImpl_held case_prod_beta)
qed

lemma add_free: "\<not> cond_L (thePlayers w) \<Longrightarrow> add p a w = Some (register p a w)"
  by (simp add: add_def register_def L_Lock_def L_Unlock_def)

lemma register_upd: "register p' a (upd p f w) = upd p f (register p' a w)"
  by (simp add: register_def upd_def)

lemma register_fields [simp]:
  "heap (register p a w) = heap w" "pool (register p a w) = pool w"
  "ctx (register p a w) = ctx w" "status (register p a w) = status w"
  "handle (register p a w) = handle w" "calls (register p a w) = calls w"
  "cond_L (thePlayers (register p a w)) = cond_L (thePlayers w)"
  by (simp_all add: register_def)

lemma playImpl_acquire_held:
  assumes "held p w"
  shows "playImpl_acquire p w = Some (playImpl_acquire0 p w)"
proof (cases "audioQueue (heap w p) = nil")
  case False
  then show ?thesis by (simp add: playImpl_acquire_def playImpl_acquire0_def)
next
  case True
  define w1 where "w1 = snd (Get w)"
  have h: "held p w1"
    using assms by (simp add: held_def w1_def)
  show ?thesis
  proof (cases "fst (Get w)")
    case (Inl e)
    then have g: "Get w = (Inl e, w1)" by (cases "Get w") (simp add: w1_def)
    show ?thesis
      using True by (simp add: playImpl_acquire_def playImpl_acquire0_def g setErrorImpl_held [OF h])
  next
    case (Inr r)
    obtain a bs where r: "r = (a, bs)" by (cases r)
    have g: "Get w = (Inr (a, bs), w1)" using Inr r by (cases "Get w") (simp add: w1_def)
    have m: "mutex (heap w1 p)" "\<not> cond_L (thePlayers w1)"
      using h by (simp_all add: held_def)
    show ?thesis
      using True m
      by (simp add: playImpl_acquire_def playImpl_acquire0_def g Let_def case_prod_beta
          Unlock_held native_unlocked add_free register_upd relock)
  qed
qed

lemma resetImpl_held:
  assumes "held p w"
  shows "resetImpl p w = Some (resetImpl0 p w)"
proof -
  have h: "held p (snd (closeAudioQueue0 p w))"
    using assms held_frame [OF frame_closeAudioQueue0] by simp
  show ?thesis
    by (cases "closeAudioQueue0 p w"; cases "fst (closeAudioQueue0 p w)")
       (use h in \<open>simp_all add: resetImpl_def resetImpl0_def closeAudioQueue_held [OF assms]
          setErrorImpl_held\<close>)
qed


subsection \<open>Steps of the code that works on one player\<close>

lemma frame_playImpl_acquire0: "frame p w (snd (playImpl_acquire0 p w))"
proof (cases "audioQueue (heap w p) = nil")
  case False
  then show ?thesis by (simp add: playImpl_acquire0_def)
next
  case True
  define w1 where "w1 = snd (Get w)"
  have 1: "frame p w w1" unfolding w1_def by (rule frame_Get)
  show ?thesis
  proof (cases "fst (Get w)")
    case (Inl e)
    then have g: "Get w = (Inl e, w1)" by (cases "Get w") (simp add: w1_def)
    from 1 frame_setErrorImpl0 have "frame p w (setErrorImpl0 p e w1)" by (rule frame_trans)
    then show ?thesis using True by (simp add: playImpl_acquire0_def g)
  next
    case (Inr r)
    obtain a bs where r: "r = (a, bs)" by (cases r)
    have g: "Get w = (Inr (a, bs), w1)" using Inr r by (cases "Get w") (simp add: w1_def)
    define w2 where "w2 = upd p (\<lambda>x. x\<lparr>audioQueue := a, unqueuedBufs := bs\<rparr>) w1"
    have 2: "frame p w w2"
      using 1 unfolding w2_def by (rule frame_trans) (simp add: frame_upd)
    have 3: "frame p w (snd (native c w2))" for c
      using 2 frame_native by (rule frame_trans)
    have 4: "frame p w (register p a (snd (native c w2)))" for c
      using 3 frame_register by (rule frame_trans)
    show ?thesis
      using True 4 by (simp add: playImpl_acquire0_def g Let_def w2_def)
  qed
qed


declare moves.m_refl [simp, intro]

lemma moves_trans:
  assumes "moves p w w1" "moves p w1 w2"
  shows "moves p w w2"
  using assms(2,1) by (induction rule: moves.induct) (auto intro: moves.intros)

lemma moves_frame: "moves p w w' \<Longrightarrow> frame p w w'"
proof (induction rule: moves.induct)
  case m_refl
  show ?case by simp
next
  case (m_native w1 c)
  from m_native.IH frame_native show ?case by (rule frame_trans)
next
  case (m_upd w1 f)
  from m_upd.IH show ?case by (rule frame_trans) (simp add: frame_upd m_upd.hyps)
next
  case (m_close w1)
  from m_close.IH frame_closeAudioQueue0 show ?case by (rule frame_trans)
next
  case (m_acquire w1)
  from m_acquire.IH frame_playImpl_acquire0 show ?case by (rule frame_trans)
qed

lemma held_moves: "moves p w w' \<Longrightarrow> held p w' = held p w"
  by (rule held_frame [OF moves_frame])

lemma moves_native: "moves p w (snd (native c w))"
  by (intro moves.intros)

lemma moves_upd:
  "audioQueue (f (heap w p)) = audioQueue (heap w p) \<Longrightarrow> mutex (f (heap w p)) = mutex (heap w p)
   \<Longrightarrow> volume (f (heap w p)) = volume (heap w p) \<Longrightarrow> (eof (heap w p) \<longrightarrow> eof (f (heap w p)))
   \<Longrightarrow> moves p w (upd p f w)"
  by (intro moves.intros)

lemma moves_closeAudioQueue0: "moves p w (snd (closeAudioQueue0 p w))"
  by (intro moves.intros)

lemma moves_closeImpl0: "moves p w (snd (closeImpl0 p w))"
proof -
  let ?w1 = "snd (closeAudioQueue0 p w)"
  have 1: "moves p w ?w1" by (rule moves_closeAudioQueue0)
  have 2: "moves p w (upd p (\<lambda>x. x\<lparr>state := playerClosed\<rparr>) ?w1)"
    using 1 by (rule moves_trans) (simp add: moves_upd)
  have 3: "moves p w (upd p (\<lambda>x. x\<lparr>state := playerClosed\<rparr>) (upd p (\<lambda>x. x\<lparr>err := e\<rparr>) ?w1))" for e
    by (intro m_upd [OF m_upd [OF 1]]) simp_all
  show ?thesis
    using 2 3 by (simp add: closeImpl0_def case_prod_beta Let_def del: upd_upd)
qed

lemma moves_setErrorImpl0: "moves p w (setErrorImpl0 p e w)"
proof -
  have "moves p w (upd p (\<lambda>x. x\<lparr>err := Some e\<rparr>) w)" by (simp add: moves_upd)
  then show ?thesis
    unfolding setErrorImpl0_def using moves_closeImpl0 by (rule moves_trans)
qed

lemma moves_acquire: "moves p w (snd (playImpl_acquire0 p w))"
proof (cases "audioQueue (heap w p) = nil")
  case True
  then show ?thesis by (intro moves.intros)
next
  case False
  then show ?thesis by (simp add: playImpl_acquire0_def m_refl)
qed

lemma setErrorImpl_moves:
  "held p w \<Longrightarrow> setErrorImpl p e w = Some w' \<Longrightarrow> moves p w w'"
  using moves_setErrorImpl0 [of p w e] by (simp add: setErrorImpl_held)


subsection \<open>The loops of playImpl\<close>

lemma moves_Read: "moves p w (snd (Read p n w))"
  by (simp add: Read_def case_prod_beta moves_upd)

lemma moves_appendBufferImpl: "moves p w (snd (appendBufferImpl p b w))"
proof -
  have "moves p w (upd p f (snd (native c w)))"
    if "\<And>x. mutex (f x) = mutex x" "\<And>x. volume (f x) = volume x"
      "\<And>x. eof x \<longrightarrow> eof (f x)" "\<And>x. audioQueue (f x) = audioQueue x" for f c
    using moves_native [of p w c] by (rule moves_trans) (simp add: moves_upd that)
  then show ?thesis
    by (simp add: appendBufferImpl_def Let_def case_prod_beta moves_native)
qed

lemma moves_drainLoop: "moves p w (snd (drainLoop p bs un w))"
proof (induction bs arbitrary: un w)
  case Nil
  show ?case by simp
next
  case (Cons b bs)
  define r where "r = appendBufferImpl p b w"
  have 1: "moves p w (snd r)"
    unfolding r_def by (rule moves_appendBufferImpl)
  have 2: "moves p w (snd (drainLoop p bs un' (snd r)))" for un'
    using 1 Cons.IH by (rule moves_trans)
  show ?case
    using 1 2
    by (cases r; cases "snd (fst r)") (auto simp: r_def [symmetric])
qed

lemma moves_fillLoop:
  "fillLoop p w = Some r \<Longrightarrow> moves p w (snd r)"
proof (induction p w r rule: fillLoop.raw_induct [rotated 1, consumes 1])
  case (1 f p w r)
  show ?case
  proof (cases "length (buf (heap w p)) < maxBufferSize (ctx w)")
    case False
    with 1(2) show ?thesis by auto
  next
    case True
    define rd where "rd = Read p (maxBufferSize (ctx w)) w"
    define w1 where "w1 = snd rd"
    define d where "d = fst (fst rd)"
    define e where "e = snd (fst rd)"
    have rd: "Read p (maxBufferSize (ctx w)) w = ((d, e), w1)"
      by (simp add: rd_def w1_def d_def e_def)
    have f1: "moves p w w1"
      unfolding w1_def rd_def by (rule moves_Read)
    have f2: "moves p w (upd p g w1)"
      if "\<And>x. mutex (g x) = mutex x" "\<And>x. volume (g x) = volume x"
        "\<And>x. eof x \<longrightarrow> eof (g x)" "\<And>x. audioQueue (g x) = audioQueue x" for g
      using f1 by (rule moves_trans) (simp add: moves_upd that)
    show ?thesis
    proof (cases e)
      case None
      with 1(2) True have "f p (upd p (\<lambda>x. x\<lparr>buf := buf x @ d\<rparr>) w1) = Some r"
        by (simp add: rd)
      from 1(1) [OF this] have "moves p (upd p (\<lambda>x. x\<lparr>buf := buf x @ d\<rparr>) w1) (snd r)" .
      with f2 [of "\<lambda>x. x\<lparr>buf := buf x @ d\<rparr>"] show ?thesis
        by (simp add: moves_trans)
    next
      case (Some x)
      with 1(2) True f1 f2 [of "\<lambda>x. x\<lparr>buf := buf x @ d, eof := True\<rparr>"]
      show ?thesis
        by (auto simp: rd split: if_splits)
    qed
  qed
qed

lemma moves_primeLoop:
  "primeLoop a w = Some r \<Longrightarrow> moves p w (snd r)"
proof (induction a w r rule: primeLoop.raw_induct [rotated 1, consumes 1])
  case (1 f a w r)
  define w1 where "w1 = snd (native (AudioQueuePrime a) w)"
  have n: "native (AudioQueuePrime a) w = (status w (length (calls w)), w1)"
    by (simp add: native_def w1_def)
  have f1: "moves p w w1"
    unfolding w1_def by (rule moves_native)
  show ?case
  proof (cases "status w (length (calls w)) = AVAudioSessionErrorCodeSiriIsRecording")
    case True
    with 1(2) have "f a w1 = Some r" by (simp add: n)
    from f1 1(1) [OF this] show ?thesis by (rule moves_trans)
  next
    case False
    with 1(2) f1 show ?thesis by (auto simp: n split: if_splits)
  qed
qed


subsection \<open>The sections of playImpl\<close>

lemma playImpl_start_moves:
  assumes h: "held p w" and r: "playImpl_start p w = Some w'"
  shows "moves p w w'"
proof -
  from r obtain st w1 where pl: "primeLoop (audioQueue (heap w p)) w = Some (st, w1)"
    and r1: "(if st \<noteq> noErr then setErrorImpl p (PrimeFailed st) w1
              else (case native (AudioQueueStart (audioQueue (heap w1 p))) w1 of
                (osstatus2, w2) \<Rightarrow>
                  if osstatus2 \<noteq> noErr then setErrorImpl p (StartFailed osstatus2) w2
                  else Some (upd p (\<lambda>x. x\<lparr>state := playerPlay\<rparr>) w2))) = Some w'"
    unfolding playImpl_start_def by (cases "primeLoop (audioQueue (heap w p)) w") auto
  have f1: "moves p w w1" using moves_primeLoop [OF pl] by simp
  have h1: "held p w1" using h held_moves [OF f1] by simp
  show ?thesis
  proof (cases "st \<noteq> noErr")
    case True
    with r1 have "setErrorImpl p (PrimeFailed st) w1 = Some w'" by simp
    from f1 setErrorImpl_moves [OF h1 this] show ?thesis by (rule moves_trans)
  next
    case False
    define w2 where "w2 = snd (native (AudioQueueStart (audioQueue (heap w1 p))) w1)"
    define st2 where "st2 = status w1 (length (calls w1))"
    have n: "native (AudioQueueStart (audioQueue (heap w1 p))) w1 = (st2, w2)"
      by (simp add: native_def w2_def st2_def)
    have f2: "moves p w w2"
      using f1 moves_native unfolding w2_def by (rule moves_trans)
    have h2: "held p w2" using h held_moves [OF f2] by simp
    have f2': "moves p w (upd p (\<lambda>x. x\<lparr>state := playerPlay\<rparr>) w2)"
      using f2 by (rule moves_trans) (simp add: moves_upd)
    show ?thesis
    proof (cases "st2 \<noteq> noErr")
      case True
      with r1 False n have "setErrorImpl p (StartFailed st2) w2 = Some w'" by simp
      from f2 setErrorImpl_moves [OF h2 this] show ?thesis by (rule moves_trans)
    next
      case st2: False
      with r1 False n have "w' = upd p (\<lambda>x. x\<lparr>state := playerPlay\<rparr>) w2" by simp
      with f2' show ?thesis by simp
    qed
  qed
qed

lemma playImpl_drain_moves:
  assumes h: "held p w" and r: "playImpl_drain p w = Some w'"
  shows "moves p w w'"
proof -
  define dr where "dr = drainLoop p (unqueuedBufs (heap w p)) [] w"
  define w1 where "w1 = snd dr"
  have f1: "moves p w w1"
    unfolding w1_def dr_def by (rule moves_drainLoop)
  have h1: "held p w1" using h held_moves [OF f1] by simp
  show ?thesis
  proof (cases "fst dr")
    case (Inl x)
    then have d: "drainLoop p (unqueuedBufs (heap w p)) [] w = (Inl x, w1)"
      by (cases dr) (simp_all add: dr_def [symmetric] w1_def)
    with r have "setErrorImpl p x w1 = Some w'" by (simp add: playImpl_drain_def)
    from f1 setErrorImpl_moves [OF h1 this] show ?thesis by (rule moves_trans)
  next
    case (Inr un)
    then have d: "drainLoop p (unqueuedBufs (heap w p)) [] w = (Inr un, w1)"
      by (cases dr) (simp_all add: dr_def [symmetric] w1_def)
    define w2 where "w2 = upd p (\<lambda>x. x\<lparr>unqueuedBufs := un\<rparr>) w1"
    have f2: "moves p w w2"
      using f1 unfolding w2_def by (rule moves_trans) (simp add: moves_upd)
    have h2: "held p w2" using h held_moves [OF f2] by simp
    have f2': "moves p w (upd p (\<lambda>x. x\<lparr>state := playerPaused\<rparr>) w2)"
      using f2 by (rule moves_trans) (simp add: moves_upd)
    have r2: "(if length (unqueuedBufs (heap w2 p)) = 2 \<and> eof (heap w2 p)
           then Some (upd p (\<lambda>x. x\<lparr>state := playerPaused\<rparr>) w2)
           else playImpl_start p w2) = Some w'"
      using r unfolding playImpl_drain_def d w2_def by (simp add: Let_def)
    show ?thesis
    proof (cases "length (unqueuedBufs (heap w2 p)) = 2 \<and> eof (heap w2 p)")
      case True
      with r2 f2' show ?thesis by auto
    next
      case False
      with r2 have "playImpl_start p w2 = Some w'" by simp
      from f2 playImpl_start_moves [OF h2 this] show ?thesis by (rule moves_trans)
    qed
  qed
qed

lemma playImpl_fill_moves:
  assumes h: "held p w" and r: "playImpl_fill p w = Some w'"
  shows "moves p w w'"
proof -
  from r obtain e w1 where fl: "fillLoop p w = Some (e, w1)"
    and r1: "(case e of Some x \<Rightarrow> setErrorImpl p x w1 | None \<Rightarrow> playImpl_drain p w1) = Some w'"
    unfolding playImpl_fill_def by (cases "fillLoop p w") auto
  have f1: "moves p w w1" using moves_fillLoop [OF fl] by simp
  have h1: "held p w1" using h held_moves [OF f1] by simp
  show ?thesis
  proof (cases e)
    case (Some x)
    with r1 have "setErrorImpl p x w1 = Some w'" by simp
    from f1 setErrorImpl_moves [OF h1 this] show ?thesis by (rule moves_trans)
  next
    case None
    with r1 have "playImpl_drain p w1 = Some w'" by simp
    from f1 playImpl_drain_moves [OF h1 this] show ?thesis by (rule moves_trans)
  qed
qed

lemma playImpl_after_acquire:
  assumes h: "held p w" and e: "err (heap w p) = None" and s: "state (heap w p) = playerPaused"
    and r: "playImpl p w = Some w'"
  shows "moves p (snd (playImpl_acquire0 p w)) w'"
proof -
  obtain acq w1 where a0: "playImpl_acquire0 p w = (acq, w1)"
    by (cases "playImpl_acquire0 p w")
  have a: "playImpl_acquire p w = Some (acq, w1)"
    using playImpl_acquire_held [OF h] by (simp add: a0)
  have h1: "held p w1"
    using h held_moves [OF moves_acquire, of p w] by (simp add: a0)
  have r1: "(if \<not> acq then Some w1 else playImpl_fill p w1) = Some w'"
    using r e s by (simp add: playImpl_def a)
  show ?thesis
  proof (cases acq)
    case False
    with r1 show ?thesis by (simp add: a0)
  next
    case True
    with r1 have "playImpl_fill p w1 = Some w'" by simp
    from playImpl_fill_moves [OF h1 this] show ?thesis by (simp add: a0)
  qed
qed

lemma playImpl_moves:
  assumes "held p w" "playImpl p w = Some w'"
  shows "moves p w w'"
proof (cases "err (heap w p) = None \<and> state (heap w p) = playerPaused")
  case True
  then have "moves p (snd (playImpl_acquire0 p w)) w'"
    using playImpl_after_acquire [OF assms(1) _ _ assms(2)] by simp
  with moves_acquire show ?thesis by (rule moves_trans)
next
  case False
  then have "playImpl p w = Some w" by (auto simp: playImpl_def)
  with assms(2) show ?thesis by simp
qed

lemma playImpl_frame:
  "held p w \<Longrightarrow> playImpl p w = Some w' \<Longrightarrow> frame p w w'"
  by (rule moves_frame [OF playImpl_moves])

subsection \<open>Entering and leaving a public operation\<close>

lemma Lock_idle: "idle p w \<Longrightarrow> Lock p w = Some (locked p w)"
  by (simp add: idle_def Lock_def locked_def)

lemma held_locked: "idle p w \<Longrightarrow> held p (locked p w)"
  by (simp add: idle_def held_def locked_def)

lemma Unlock_held': "held p w \<Longrightarrow> Unlock p w = Some (unlocked p w)"
  by (simp add: held_def Unlock_def unlocked_def)

lemma idle_unlocked: "held p w \<Longrightarrow> idle p (unlocked p w)"
  by (simp add: idle_def held_def unlocked_def)

lemma unlocked_locked: "idle p w \<Longrightarrow> unlocked p (locked p w) = w"
  by (simp add: idle_def unlocked_def locked_def upd_def)

lemma locked_fields [simp]:
  "ctx (locked p w) = ctx w" "pool (locked p w) = pool w" "thePlayers (locked p w) = thePlayers w"
  "status (locked p w) = status w" "handle (locked p w) = handle w" "calls (locked p w) = calls w"
  "p' \<noteq> p \<Longrightarrow> heap (locked p w) p' = heap w p'"
  "src (heap (locked p w) p') = src (heap w p')"
  "audioQueue (heap (locked p w) p') = audioQueue (heap w p')"
  "buf (heap (locked p w) p') = buf (heap w p')"
  "unqueuedBufs (heap (locked p w) p') = unqueuedBufs (heap w p')"
  "state (heap (locked p w) p') = state (heap w p')"
  "err (heap (locked p w) p') = err (heap w p')"
  "eof (heap (locked p w) p') = eof (heap w p')"
  "volume (heap (locked p w) p') = volume (heap w p')"
  "mutex (heap (locked p w) p)"
  by (simp_all add: locked_def)

lemma unlocked_fields [simp]:
  "ctx (unlocked p w) = ctx w" "pool (unlocked p w) = pool w"
  "thePlayers (unlocked p w) = thePlayers w"
  "status (unlocked p w) = status w" "handle (unlocked p w) = handle w"
  "calls (unlocked p w) = calls w"
  "p' \<noteq> p \<Longrightarrow> heap (unlocked p w) p' = heap w p'"
  "src (heap (unlocked p w) p') = src (heap w p')"
  "audioQueue (heap (unlocked p w) p') = audioQueue (heap w p')"
  "buf (heap (unlocked p w) p') = buf (heap w p')"
  "unqueuedBufs (heap (unlocked p w) p') = unqueuedBufs (heap w p')"
  "state (heap (unlocked p w) p') = state (heap w p')"
  "err (heap (unlocked p w) p') = err (heap w p')"
  "eof (heap (unlocked p w) p') = eof (heap w p')"
  "volume (heap (unlocked p w) p') = volume (heap w p')"
  "\<not> mutex (heap (unlocked p w) p)"
  by (simp_all add: unlocked_def)

lemma frame_public:
  "idle p w \<Longrightarrow> frame p (locked p w) w1 \<Longrightarrow> frame p w (unlocked p w1)"
  by (simp add: frame_def idle_def)

subsection \<open>What closing does\<close>

lemma closeAudioQueue0_nil:
  "audioQueue (heap w p) = nil \<Longrightarrow> closeAudioQueue0 p w = (None, w)"
  by (simp add: closeAudioQueue0_def)

lemma audioQueue_triv: "audioQueue x = a \<Longrightarrow> x\<lparr>audioQueue := a\<rparr> = x"
  by (cases x) simp

lemma closeAudioQueue0_heap:
  "heap (snd (closeAudioQueue0 p w)) =
   (heap w)(p := (heap w p)\<lparr>audioQueue := audioQueue (heap (snd (closeAudioQueue0 p w)) p)\<rparr>)"
proof (cases "audioQueue (heap w p) = nil")
  case True
  then show ?thesis by (simp add: closeAudioQueue0_nil audioQueue_triv)
next
  case False
  then show ?thesis by (simp add: closeAudioQueue0_def case_prod_beta audioQueue_triv)
qed

lemma closeAudioQueue0_None:
  "fst (closeAudioQueue0 p w) = None \<Longrightarrow> audioQueue (heap (snd (closeAudioQueue0 p w)) p) = nil"
  by (simp add: closeAudioQueue0_def case_prod_beta split: if_splits)

lemma closeAudioQueue0_Some:
  "fst (closeAudioQueue0 p w) = Some e \<Longrightarrow>
   err (heap w p) = None \<and> audioQueue (heap w p) \<noteq> nil
   \<and> audioQueue (heap (snd (closeAudioQueue0 p w)) p) = audioQueue (heap w p)
   \<and> thePlayers (snd (closeAudioQueue0 p w)) = thePlayers w"
  by (simp add: closeAudioQueue0_def case_prod_beta split: if_splits)

lemma closeImpl0_state:
  "state (heap (snd (closeImpl0 p w)) p) = playerClosed"
  by (simp add: closeImpl0_def case_prod_beta Let_def)

lemma closeImpl0_err:
  "fst (closeImpl0 p w) = err (heap (snd (closeImpl0 p w)) p)"
  by (simp add: closeImpl0_def case_prod_beta Let_def)

lemma closeImpl0_nil:
  "audioQueue (heap w p) = nil \<Longrightarrow>
   closeImpl0 p w = (err (heap w p), upd p (\<lambda>x. x\<lparr>state := playerClosed\<rparr>) w)"
  by (simp add: closeImpl0_def closeAudioQueue0_nil)

lemma closeImpl0_err_kept:
  assumes "err (heap w p) = Some e"
  shows "err (heap (snd (closeImpl0 p w)) p) = Some e
       \<and> audioQueue (heap (snd (closeImpl0 p w)) p) = nil"
proof -
  have 1: "fst (closeAudioQueue0 p w) = None"
    using closeAudioQueue0_Some [of p w] assms by (cases "fst (closeAudioQueue0 p w)") auto
  have 2: "audioQueue (heap (snd (closeAudioQueue0 p w)) p) = nil"
    using closeAudioQueue0_None [OF 1] .
  have 3: "err (heap (snd (closeAudioQueue0 p w)) p) = Some e"
    using assms by (subst closeAudioQueue0_heap) simp
  show ?thesis
    by (simp add: closeImpl0_def case_prod_beta Let_def 1 2 3)
qed

lemma closeImpl0_noerr:
  assumes "err (heap (snd (closeImpl0 p w)) p) = None"
  shows "audioQueue (heap (snd (closeImpl0 p w)) p) = nil"
proof (cases "fst (closeAudioQueue0 p w)")
  case None
  from closeAudioQueue0_None [OF this] show ?thesis
    by (simp add: closeImpl0_def case_prod_beta Let_def)
next
  case (Some e)
  from closeAudioQueue0_Some [OF this] have "err (heap (snd (closeAudioQueue0 p w)) p) = None"
    by (subst closeAudioQueue0_heap) simp
  with Some assms show ?thesis
    by (simp add: closeImpl0_def case_prod_beta Let_def)
qed

lemma Close_idle:
  assumes "idle p w"
  shows "Close p w = Some (fst (closeImpl0 p (locked p w)), unlocked p (snd (closeImpl0 p (locked p w))))"
proof -
  have h: "held p (snd (closeImpl0 p (locked p w)))"
    using held_locked [OF assms] held_frame [OF frame_closeImpl0, of p "locked p w"] by simp
  show ?thesis
    by (simp add: Close_def Lock_idle [OF assms] closeImpl_held [OF held_locked [OF assms]]
        case_prod_beta Unlock_held' [OF h])
qed

lemma state_triv: "state x = s \<Longrightarrow> x\<lparr>state := s\<rparr> = x"
  by (cases x) simp


subsection \<open>The pool does not look at the players\<close>

lemma native_upd:
  "native c (upd p f w) = (fst (native c w), upd p f (snd (native c w)))"
  by (simp add: native_def upd_def)

lemma newHandle_upd [simp]: "newHandle (upd p f w) = newHandle w"
  by (simp add: newHandle_def)

lemma allocateBuffers_upd:
  "allocateBuffers n q sz bs (upd p f w) =
   (fst (allocateBuffers n q sz bs w), upd p f (snd (allocateBuffers n q sz bs w)))"
proof (induction n arbitrary: bs w)
  case 0
  show ?case by simp
next
  case (Suc n)
  show ?case
    by (simp add: native_upd case_prod_beta Suc.IH)
qed

lemma upd_pool_swap:
  "(upd p f w)\<lparr>pool := x\<rparr> = upd p f (w\<lparr>pool := x\<rparr>)"
  by (simp add: upd_def)

lemma Get_upd:
  "Get (upd p f w) = (fst (Get w), upd p f (snd (Get w)))"
proof (cases "unused (pool w)")
  case (Cons q rest)
  then show ?thesis by (simp add: Get_def upd_pool_swap)
next
  case Nil
  define r where "r = allocateBuffers 2 (newHandle w) (oneBufferSize (ctx w))
    [] (snd (native AudioQueueNewOutput w))"
  show ?thesis
    using Nil
    by (cases r; cases "fst r")
       (simp_all add: Get_def native_upd case_prod_beta allocateBuffers_upd r_def [symmetric]
         upd_pool_swap)
qed

subsection \<open>Volume and the acquisition of a queue\<close>



lemma Play_idle:
  assumes "idle p w"
  shows "Play p w = map_option (unlocked p) (playImpl p (locked p w))"
proof (cases "playImpl p (locked p w)")
  case None
  then show ?thesis by (simp add: Play_def Lock_idle [OF assms])
next
  case (Some w1)
  have "held p w1"
    using held_locked [OF assms] held_frame [OF playImpl_frame [OF held_locked [OF assms] Some]]
    by simp
  then show ?thesis
    by (simp add: Play_def Lock_idle [OF assms] Some Unlock_held')
qed



subsection \<open>The first fill of \<open>Play\<close> on a source that ends\<close>

lemma fillLoop_eof:
  "\<forall>j<n. snd (src (heap w p) j) = None \<Longrightarrow> snd (src (heap w p) n) = Some EOF \<Longrightarrow>
   length (buf (heap w p)) + length (concat (map (\<lambda>j. fst (src (heap w p) j)) [0..<Suc n]))
     < maxBufferSize (ctx w) \<Longrightarrow>
   fillLoop p w =
     Some (None, upd p (\<lambda>x. x\<lparr>src := (\<lambda>k. src x (Suc n + k)),
                               buf := buf x @ concat (map (\<lambda>j. fst (src x j)) [0..<Suc n]),
                               eof := True\<rparr>) w)"
proof (induction n arbitrary: w)
  case 0
  obtain d where d: "src (heap w p) 0 = (d, Some EOF)"
    using 0(2) by (cases "src (heap w p) 0") simp
  have l: "length (buf (heap w p)) < maxBufferSize (ctx w)" "length d < maxBufferSize (ctx w)"
    using 0(3) by (simp_all add: d)
  show ?case
    apply (subst fillLoop.simps)
    using l by (simp add: Read_def d)
next
  case (Suc n)
  obtain d where d: "src (heap w p) 0 = (d, None)"
    using Suc.prems(1) [rule_format, of 0] by (cases "src (heap w p) 0") simp
  define w1 where "w1 = upd p (\<lambda>x. x\<lparr>src := (\<lambda>k. src x (Suc k)), buf := buf x @ d\<rparr>) w"
  have u: "[0..<Suc (Suc n)] = 0 # map Suc [0..<Suc n]"
    by (simp only: map_Suc_upt upt_conv_Cons [of 0 "Suc (Suc n)"] zero_less_Suc)
  have c: "concat (map (\<lambda>j. fst (src (heap w p) j)) [0..<Suc (Suc n)])
      = d @ concat (map (\<lambda>j. fst (src (heap w p) (Suc j))) [0..<Suc n])"
    unfolding u by (simp add: d comp_def del: upt_Suc)
  have l: "length (buf (heap w p)) < maxBufferSize (ctx w)" "length d < maxBufferSize (ctx w)"
    using Suc.prems(3) unfolding c by simp_all
  have 1: "\<forall>j<n. snd (src (heap w1 p) j) = None"
    using Suc.prems(1) by (simp add: w1_def)
  have 2: "snd (src (heap w1 p) n) = Some EOF"
    using Suc.prems(2) by (simp add: w1_def)
  have 3: "length (buf (heap w1 p)) + length (concat (map (\<lambda>j. fst (src (heap w1 p) j)) [0..<Suc n]))
     < maxBufferSize (ctx w1)"
    using Suc.prems(3) unfolding c by (simp add: w1_def)
  have s: "fillLoop p w = fillLoop p w1"
    apply (subst fillLoop.simps)
    using l by (simp add: Read_def d w1_def)
  show ?case
    unfolding s Suc.IH [OF 1 2 3]
    by (simp add: w1_def upd_def c del: upt_Suc)
qed

lemma primeLoop_ok:
  "status w (length (calls w)) = noErr \<Longrightarrow>
   primeLoop a w = Some (noErr, snd (native (AudioQueuePrime a) w))"
  by (subst primeLoop.simps) (simp add: native_def)


subsection \<open>Unfolding on the worlds of the examples\<close>

lemmas fixture_defs = three_bytes_def broken_reader_def ok_def silence_def fails_at_def

lemmas close_defs = Close_def closeImpl_def closeAudioQueue_def PutLoop.simps freeBuffers.simps
  audioQueuePoolMaxItemNum_def setErrorImpl_def setError_def readSourceToBuffer_def

section \<open>The claims\<close>

text \<open>C10. A handle that is not the handle of any item of \<open>used\<close> (never acquired, or
  already released) makes \<open>Put\<close> return nil with the world as it was: \<open>unused\<close> and \<open>used\<close>
  are unchanged and no native call is made.\<close>

theorem Put_stray_release:
  "a \<notin> queue ` set (used (pool w)) \<Longrightarrow> Put a w = (None, w)"
  unfolding Put_def by (rule PutLoop_absent)

theorem Put_stray_release_witness:
  "5 \<notin> queue ` set (used (pool (snd (Get (blank silence ok)))))
   \<and> Put 5 (snd (Get (blank silence ok))) = (None, snd (Get (blank silence ok)))"
proof -
  have h: "5 \<notin> queue ` set (used (pool (snd (Get (blank silence ok)))))"
    by (simp add: Get_def native_def newHandle_def blank_def ok_def allocateBuffers_2)
  from Put_stray_release [OF h] h show ?thesis by simp
qed

text \<open>C2, as amended. With more than 32 queues in use at once the pool holds more than
  32 items: \<open>Get\<close> makes a new item whenever \<open>unused\<close> is empty and has no cap. What the
  code keeps, from \<open>Prepare\<close> on a new pool and under every sequence of \<open>Get\<close> and \<open>Put\<close>,
  is that the resident items (\<open>unused\<close> plus \<open>used\<close>) are at most 32 or all in use; so the
  idle list never holds more than 32. A \<open>Put\<close> never adds a resident item. A \<open>Put\<close> of the
  handle of an item of \<open>used\<close> caches the item when fewer than 32 other items are
  resident. Otherwise it drops the item from the lists and tears it down:
  \<open>AudioQueueFreeBuffer\<close> for its buffers in order, then \<open>AudioQueueDispose\<close>. When these
  calls all succeed \<open>Put\<close> returns nil after the last; at the first one that fails \<open>Put\<close>
  stops and returns the error of that call, with the status it reported.\<close>

theorem pool_idle_bound:
  "(unused (pool w) = [] \<and> used (pool w) = []
      \<longrightarrow> resident (snd (Prepare w)) \<le> audioQueuePoolMaxItemNum
          \<or> unused (pool (snd (Prepare w))) = [])
   \<and> (resident w \<le> audioQueuePoolMaxItemNum \<or> unused (pool w) = []
      \<longrightarrow> resident (pool_run ops w) \<le> audioQueuePoolMaxItemNum
          \<or> unused (pool (pool_run ops w)) = [])
   \<and> (length (unused (pool w)) \<le> audioQueuePoolMaxItemNum
      \<longrightarrow> length (unused (pool (pool_run ops w))) \<le> audioQueuePoolMaxItemNum)
   \<and> resident (snd (Put a w)) \<le> resident w
   \<and> (used (pool w) = pre @ q # post \<and> queue q = a \<and> a \<notin> queue ` set pre
      \<longrightarrow> (if length (unused (pool w)) + length (pre @ post) < audioQueuePoolMaxItemNum
           then Put a w = (None, w\<lparr>pool := (pool w)\<lparr>used := pre @ post, unused := unused (pool w) @ [q]\<rparr>\<rparr>)
           else ((\<forall>i\<le>length (bufs q). status w (length (calls w) + i) = noErr)
                  \<longrightarrow> Put a w =
                     (None, w\<lparr>pool := (pool w)\<lparr>used := pre @ post\<rparr>,
                              calls := calls w @ map (AudioQueueFreeBuffer a) (bufs q)
                                         @ [AudioQueueDispose a]\<rparr>))
              \<and> (\<forall>n\<le>length (bufs q).
                    (\<forall>i<n. status w (length (calls w) + i) = noErr)
                    \<and> status w (length (calls w) + n) \<noteq> noErr
                  \<longrightarrow> Put a w =
                     (Some (if n < length (bufs q)
                            then FreeBufferFailed (status w (length (calls w) + n))
                            else DisposeFailed (status w (length (calls w) + n))),
                      w\<lparr>pool := (pool w)\<lparr>used := pre @ post\<rparr>,
                        calls := calls w @ take (Suc n)
                           (map (AudioQueueFreeBuffer a) (bufs q) @ [AudioQueueDispose a])\<rparr>))))"
proof (intro conjI impI)
  assume "unused (pool w) = [] \<and> used (pool w) = []"
  then show "resident (snd (Prepare w)) \<le> audioQueuePoolMaxItemNum
          \<or> unused (pool (snd (Prepare w))) = []"
    using Prepare_bounded [of w] by simp
next
  assume "resident w \<le> audioQueuePoolMaxItemNum \<or> unused (pool w) = []"
  then show "resident (pool_run ops w) \<le> audioQueuePoolMaxItemNum
          \<or> unused (pool (pool_run ops w)) = []"
    by (rule pool_run_bounded)
next
  assume "length (unused (pool w)) \<le> audioQueuePoolMaxItemNum"
  then show "length (unused (pool (pool_run ops w))) \<le> audioQueuePoolMaxItemNum"
    by (rule pool_run_unused)
next
  show "resident (snd (Put a w)) \<le> resident w" by (rule Put_resident)
next
  assume s: "used (pool w) = pre @ q # post \<and> queue q = a \<and> a \<notin> queue ` set pre"
  then have u: "used (pool w) = pre @ q # post" "queue q \<notin> queue ` set pre" and a: "a = queue q"
    by simp_all
  show "if length (unused (pool w)) + length (pre @ post) < audioQueuePoolMaxItemNum
           then Put a w = (None, w\<lparr>pool := (pool w)\<lparr>used := pre @ post, unused := unused (pool w) @ [q]\<rparr>\<rparr>)
           else ((\<forall>i\<le>length (bufs q). status w (length (calls w) + i) = noErr)
                  \<longrightarrow> Put a w =
                     (None, w\<lparr>pool := (pool w)\<lparr>used := pre @ post\<rparr>,
                              calls := calls w @ map (AudioQueueFreeBuffer a) (bufs q)
                                         @ [AudioQueueDispose a]\<rparr>))
              \<and> (\<forall>n\<le>length (bufs q).
                    (\<forall>i<n. status w (length (calls w) + i) = noErr)
                    \<and> status w (length (calls w) + n) \<noteq> noErr
                  \<longrightarrow> Put a w =
                     (Some (if n < length (bufs q)
                            then FreeBufferFailed (status w (length (calls w) + n))
                            else DisposeFailed (status w (length (calls w) + n))),
                      w\<lparr>pool := (pool w)\<lparr>used := pre @ post\<rparr>,
                        calls := calls w @ take (Suc n)
                           (map (AudioQueueFreeBuffer a) (bufs q) @ [AudioQueueDispose a])\<rparr>))"
  proof (cases "length (unused (pool w)) + length (pre @ post) < audioQueuePoolMaxItemNum")
    case True
    with Put_found [OF u] show ?thesis unfolding a by simp
  next
    case False
    have 1: "(\<forall>i\<le>length (bufs q). status w (length (calls w) + i) = noErr)
                  \<longrightarrow> Put a w =
                     (None, w\<lparr>pool := (pool w)\<lparr>used := pre @ post\<rparr>,
                              calls := calls w @ map (AudioQueueFreeBuffer a) (bufs q)
                                         @ [AudioQueueDispose a]\<rparr>)"
      unfolding a using Put_teardown_ok [OF u False] by blast
    have 2: "\<forall>n\<le>length (bufs q).
                    (\<forall>i<n. status w (length (calls w) + i) = noErr)
                    \<and> status w (length (calls w) + n) \<noteq> noErr
                  \<longrightarrow> Put a w =
                     (Some (if n < length (bufs q)
                            then FreeBufferFailed (status w (length (calls w) + n))
                            else DisposeFailed (status w (length (calls w) + n))),
                      w\<lparr>pool := (pool w)\<lparr>used := pre @ post\<rparr>,
                        calls := calls w @ take (Suc n)
                           (map (AudioQueueFreeBuffer a) (bufs q) @ [AudioQueueDispose a])\<rparr>)"
      unfolding a using Put_teardown_fail [OF u False] by blast
    from False 1 2 show ?thesis by simp
  qed
qed

text \<open>The theorem at work: \<open>Prepare\<close> on a new pool and a run of 33 \<open>Get\<close>s and a \<open>Put\<close>
  after it; a \<open>Put\<close> that caches; and, with 33 queues in use, a \<open>Put\<close> that tears the item
  down, once with every call succeeding and once with the second \<open>AudioQueueFreeBuffer\<close>
  failing.\<close>

theorem pool_idle_bound_witness:
  "(resident (pool_run (replicate 33 PoolGet @ [PoolPut 1]) (snd (Prepare (blank silence ok))))
      \<le> audioQueuePoolMaxItemNum
    \<or> unused (pool (pool_run (replicate 33 PoolGet @ [PoolPut 1])
                       (snd (Prepare (blank silence ok))))) = [])
   \<and> Put 1 (snd (Get (blank silence ok))) =
       (None, (snd (Get (blank silence ok)))\<lparr>pool := \<lparr>unused = [\<lparr>queue = 1, bufs = [2, 3]\<rparr>], used = []\<rparr>\<rparr>)
   \<and> length (used (pool (pool_run (replicate 33 PoolGet) (blank silence ok)))) = 33
   \<and> Put 1 (pool_run (replicate 33 PoolGet) (blank silence ok)) =
       (None, (pool_run (replicate 33 PoolGet) (blank silence ok))
          \<lparr>pool := (pool (pool_run (replicate 33 PoolGet) (blank silence ok)))
                   \<lparr>used := tl (used (pool (pool_run (replicate 33 PoolGet) (blank silence ok))))\<rparr>,
           calls := calls (pool_run (replicate 33 PoolGet) (blank silence ok)) @
                   [AudioQueueFreeBuffer 1 2, AudioQueueFreeBuffer 1 3, AudioQueueDispose 1]\<rparr>)
   \<and> Put 1 (pool_run (replicate 33 PoolGet) (blank silence (fails_at 100))) =
       (Some (FreeBufferFailed (- 50)),
        (pool_run (replicate 33 PoolGet) (blank silence (fails_at 100)))
          \<lparr>pool := (pool (pool_run (replicate 33 PoolGet) (blank silence (fails_at 100))))
                   \<lparr>used := tl (used (pool (pool_run (replicate 33 PoolGet)
                                                 (blank silence (fails_at 100)))))\<rparr>,
           calls := calls (pool_run (replicate 33 PoolGet) (blank silence (fails_at 100))) @
                   [AudioQueueFreeBuffer 1 2, AudioQueueFreeBuffer 1 3]\<rparr>)"
proof -
  define b where "b = blank silence ok"
  have b: "unused (pool b) = [] \<and> used (pool b) = []"
    by (simp add: b_def blank_def)
  have 0: "resident (snd (Prepare b)) \<le> audioQueuePoolMaxItemNum
          \<or> unused (pool (snd (Prepare b))) = []"
    using pool_idle_bound [of b] b by blast
  have 1: "resident (pool_run (replicate 33 PoolGet @ [PoolPut 1]) (snd (Prepare b)))
      \<le> audioQueuePoolMaxItemNum
    \<or> unused (pool (pool_run (replicate 33 PoolGet @ [PoolPut 1]) (snd (Prepare b)))) = []"
    using pool_idle_bound [of "snd (Prepare b)" "replicate 33 PoolGet @ [PoolPut 1]"] 0 by blast
  define w where "w = snd (Get b)"
  have u: "unused (pool w) = []" "used (pool w) = [] @ \<lparr>queue = 1, bufs = [2, 3]\<rparr> # []"
    by (simp_all add: w_def b_def Get_def native_def newHandle_def blank_def ok_def allocateBuffers_2)
  have p: "pool w = \<lparr>unused = [], used = [\<lparr>queue = 1, bufs = [2, 3]\<rparr>]\<rparr>"
    by (simp add: w_def b_def Get_def native_def newHandle_def blank_def ok_def allocateBuffers_2)
  have 2: "Put 1 w = (None, w\<lparr>pool := \<lparr>unused = [\<lparr>queue = 1, bufs = [2, 3]\<rparr>], used = []\<rparr>\<rparr>)"
    using pool_idle_bound [of w "[]" 1 "[]" "\<lparr>queue = 1, bufs = [2, 3]\<rparr>" "[]"] u
    by (simp add: audioQueuePoolMaxItemNum_def p)
  have full: "unused (pool x) = [] \<and> length (used (pool x)) = 33
      \<and> used (pool x) = [] @ \<lparr>queue = 1, bufs = [2, 3]\<rparr> # tl (used (pool x))
      \<and> length (calls x) = 99"
    if x: "x = pool_run (replicate 33 PoolGet) (blank silence st)"
      and st: "\<forall>i<99. st i = noErr" for x st
  proof -
    have e: "unused (pool (blank silence st)) = []"
      "\<forall>i<3 * 33. status (blank silence st) (length (calls (blank silence st)) + i) = noErr"
      using st by (simp_all add: blank_def)
    from Gets_new [OF e] have g: "unused (pool x) = []"
      "used (pool x) = map (\<lambda>j. \<lparr>queue = Suc (3 * j), bufs = [Suc (3 * j + 1), Suc (3 * j + 2)]\<rparr>) [0..<33]"
      "length (calls x) = 99"
      unfolding x by (simp_all add: blank_def)
    have "used (pool x) \<noteq> []" "hd (used (pool x)) = \<lparr>queue = 1, bufs = [2, 3]\<rparr>"
      unfolding g(2) by (simp_all add: hd_map)
    then have "used (pool x) = \<lparr>queue = 1, bufs = [2, 3]\<rparr> # tl (used (pool x))"
      by (cases "used (pool x)") simp_all
    moreover have "length (used (pool x)) = 33" unfolding g(2) by simp
    ultimately show ?thesis using g(1,3) by simp
  qed
  define x where "x = pool_run (replicate 33 PoolGet) (blank silence ok)"
  have fx: "unused (pool x) = []" "length (used (pool x)) = 33"
    "used (pool x) = [] @ \<lparr>queue = 1, bufs = [2, 3]\<rparr> # tl (used (pool x))" "length (calls x) = 99"
    using full [OF x_def] by (simp_all add: ok_def)
  have sx: "status x = ok"
    using Gets_new [of "blank silence ok" 33] by (simp add: x_def blank_def ok_def)
  have 3: "Put 1 x = (None, x\<lparr>pool := (pool x)\<lparr>used := tl (used (pool x))\<rparr>,
           calls := calls x @ [AudioQueueFreeBuffer 1 2, AudioQueueFreeBuffer 1 3, AudioQueueDispose 1]\<rparr>)"
    using pool_idle_bound [of x "[]" 1 "[]" "\<lparr>queue = 1, bufs = [2, 3]\<rparr>" "tl (used (pool x))"]
      fx(3) fx(1,2)
    by (simp add: audioQueuePoolMaxItemNum_def sx ok_def)
  define y where "y = pool_run (replicate 33 PoolGet) (blank silence (fails_at 100))"
  have fy: "unused (pool y) = []" "length (used (pool y)) = 33"
    "used (pool y) = [] @ \<lparr>queue = 1, bufs = [2, 3]\<rparr> # tl (used (pool y))" "length (calls y) = 99"
    using full [OF y_def] by (simp_all add: fails_at_def)
  have sy: "status y = fails_at 100"
    using Gets_new [of "blank silence (fails_at 100)" 33]
    by (simp add: y_def blank_def fails_at_def)
  have 4: "Put 1 y = (Some (FreeBufferFailed (- 50)),
        y\<lparr>pool := (pool y)\<lparr>used := tl (used (pool y))\<rparr>,
          calls := calls y @ [AudioQueueFreeBuffer 1 2, AudioQueueFreeBuffer 1 3]\<rparr>)"
  proof -
    have h: "used (pool y) = [] @ \<lparr>queue = 1, bufs = [2, 3]\<rparr> # tl (used (pool y))
        \<and> queue \<lparr>queue = 1, bufs = [2, 3]\<rparr> = 1 \<and> 1 \<notin> queue ` set []"
      using fy(3) by simp
    have nc: "\<not> length (unused (pool y)) + length ([] @ tl (used (pool y)))
                < audioQueuePoolMaxItemNum"
      using fy(1,2) by (simp add: audioQueuePoolMaxItemNum_def)
    note t = pool_idle_bound [of y "[]" 1 "[]" "\<lparr>queue = 1, bufs = [2, 3]\<rparr>" "tl (used (pool y))",
        THEN conjunct2, THEN conjunct2, THEN conjunct2, THEN conjunct2, rule_format, OF h]
    note ab = t [unfolded if_not_P [OF nc]]
    have c1: "1 \<le> length (bufs \<lparr>queue = 1, bufs = [2, 3]\<rparr>)" by simp
    have c2: "(\<forall>i<1. status y (length (calls y) + i) = noErr)
        \<and> status y (length (calls y) + 1) \<noteq> noErr"
      by (simp add: sy fy(4) fails_at_def noErr_def)
    from ab [THEN conjunct2, rule_format, OF c1 c2] show ?thesis
      by (simp add: sy fy(4) fails_at_def)
  qed
  from 1 2 3 fx(2) 4 show ?thesis
    unfolding w_def x_def y_def b_def by (intro conjI)
qed

text \<open>The claim as it was stated fails: after \<open>NewContext\<close> has filled the pool, 33
  \<open>Get\<close>s with no \<open>Put\<close> between them leave 33 resident items.\<close>

theorem pool_resident_counterexample:
  "resident (pool_run (replicate 33 PoolGet) (snd (Prepare (blank silence ok)))) = 33"
proof -
  define b where "b = blank silence ok"
  have b: "\<forall>k. status b k = noErr" "unused (pool b) = []" "used (pool b) = []"
    by (simp_all add: blank_def b_def ok_def)
  define l where "l = snd (PrepareLoop audioQueuePoolMaxItemNum b)"
  from PrepareLoop_counts [OF b(1,2), of audioQueuePoolMaxItemNum] have
    l1: "fst (PrepareLoop audioQueuePoolMaxItemNum b) = None"
    and l2: "length (used (pool l)) = length (used (pool b)) + audioQueuePoolMaxItemNum"
    and l3: "status l = status b"
    unfolding l_def by blast+
  have pl: "PrepareLoop audioQueuePoolMaxItemNum b = (None, l)"
    using l1 unfolding l_def by (cases "PrepareLoop audioQueuePoolMaxItemNum b") simp
  define p where "p = snd (Prepare b)"
  have p: "p = l\<lparr>pool := (pool l)\<lparr>unused := used (pool l), used := []\<rparr>\<rparr>"
    by (simp add: Prepare_def pl p_def)
  have st: "\<forall>k. status p k = noErr"
    using b(1) by (simp add: p l3)
  have u: "length (unused (pool p)) = 32" "length (used (pool p)) = 0"
    by (simp_all add: p l2 b(3) audioQueuePoolMaxItemNum_def)
  define x where "x = pool_run (replicate 33 PoolGet) p"
  note g = Gets_counts [OF st, of 33, folded x_def]
  have "length (used (pool x)) = 33"
    using conjunct1 [OF g] u(2) by (simp only: add_0)
  moreover have "length (unused (pool x)) = 0"
    using conjunct2 [OF g] u(1) by simp
  ultimately have "resident x = 33" by (simp add: resident_def)
  then show ?thesis unfolding x_def p_def b_def .
qed


text \<open>C3, as amended. The retry of \<open>AudioQueuePrime\<close> has no bound: the loop of
  \<open>playImpl\<close> returns exactly when one of the coming native results is not
  \<open>AVAudioSessionErrorCodeSiriIsRecording\<close>, and retries forever on an endless run of that
  status.\<close>

theorem prime_retry:
  "(\<exists>r. primeLoop a w = Some r) =
   (\<exists>k. status w (length (calls w) + k) \<noteq> AVAudioSessionErrorCodeSiriIsRecording)"
  using primeLoop_returns primeLoop_needs by blast


theorem prime_retry_witness:
  "\<exists>r. primeLoop 1 (blank silence ok) = Some r"
proof -
  have "status (blank silence ok) (length (calls (blank silence ok)) + 0)
          \<noteq> AVAudioSessionErrorCodeSiriIsRecording"
    by (simp add: blank_def ok_def)
  then show ?thesis
    using prime_retry [of 1 "blank silence ok"] by blast
qed

text \<open>The claim as it was stated fails: on a source of three bytes, when every
  \<open>AudioQueuePrime\<close> reports that Siri is recording, \<open>Play\<close> never returns.\<close>

theorem prime_retry_counterexample:
  "Play 0 (blank (\<lambda>k. ([1, 2, 3], Some EOF)) (siri_after 5)) = None"
proof -
  have s: "\<And>k. siri_after 5 (5 + k) = AVAudioSessionErrorCodeSiriIsRecording"
    by (simp add: siri_after_def)
  have n: "\<And>k. k < 5 \<Longrightarrow> siri_after 5 k = noErr"
    by (simp add: siri_after_def)
  show ?thesis
    apply (simp add: run_defs n)
    apply (subst fillLoop.simps)
    apply (simp add: run_defs n)
    apply (subst primeLoop_forever)
     apply (simp add: siri_after_def)
    apply simp
    done
qed

text \<open>C4. The claim fails on a path of the code. In \<open>readSourceToBuffer\<close> a read error
  other than \<open>io.EOF\<close> is passed to \<open>setError\<close>, which locks \<open>p.m\<close>, while
  \<open>readSourceToBuffer\<close> holds \<open>p.m\<close>: the call never returns, no error is stored and the
  player is not closed. Here a playing player, free of errors, whose source fails on the
  second read.\<close>

theorem refill_read_error_deadlock:
  "(\<exists>w. Play 0 (blank broken_reader ok) = Some w \<and> state (heap w 0) = playerPlay
        \<and> err (heap w 0) = None \<and> \<not> mutex (heap w 0) \<and> readSourceToBuffer 0 w = None)"
proof -
  show ?thesis
    apply (simp add: run_defs fixture_defs)
    apply (subst fillLoop.simps)
    apply (simp add: run_defs fixture_defs)
    apply (subst fillLoop.simps)
    apply (simp add: run_defs fixture_defs)
    apply (subst primeLoop.simps)
    apply (simp add: run_defs close_defs fixture_defs)
    done
qed

text \<open>C9. The claim fails on one path of the code. A player is playing and the
  \<open>AudioQueueStop\<close> of the first \<open>Close\<close> fails with status -50, no error being stored
  before. \<open>closeAudioQueue\<close> then returns before it releases anything: after the first
  \<open>Close\<close> the player is closed and holds the error, but its handle is still 1, the item
  is still in \<open>used\<close> and the player is still registered. The second \<open>Close\<close> returns the
  same error and is not a no-op: it calls \<open>AudioQueueStop\<close> on the same queue once more,
  moves the item to \<open>unused\<close> and unregisters the player. \<open>Reset\<close> in place of the first
  \<open>Close\<close> meets the same failure and, going through \<open>setErrorImpl\<close>, finishes the
  release in the one call.\<close>

theorem Close_failed_stop:
  "Play 0 (blank three_bytes (fails_at 7)) \<bind> (\<lambda>w. Close 0 w \<bind> (\<lambda>(e1, w1).
     Close 0 w1 \<bind> (\<lambda>(e2, w2).
       Some (e1, state (heap w1 0), audioQueue (heap w1 0), used (pool w1), unused (pool w1),
             players (thePlayers w1) 1, drop 7 (calls w1),
             e2, state (heap w2 0), audioQueue (heap w2 0), used (pool w2), unused (pool w2),
             players (thePlayers w2) 1, drop 7 (calls w2)))))
   = Some (Some (StopFailed (- 50)), playerClosed, 1, [\<lparr>queue = 1, bufs = [2, 3]\<rparr>], [],
           Some 0, [AudioQueueStop 1],
           Some (StopFailed (- 50)), playerClosed, nil, [], [\<lparr>queue = 1, bufs = [2, 3]\<rparr>],
           None, [AudioQueueStop 1, AudioQueueStop 1])
   \<and> Play 0 (blank three_bytes (fails_at 7)) \<bind> (\<lambda>w. Reset 0 w \<bind> (\<lambda>w1.
       Some (err (heap w1 0), state (heap w1 0), audioQueue (heap w1 0), used (pool w1),
             unused (pool w1), players (thePlayers w1) 1, drop 7 (calls w1))))
   = Some (Some (StopFailed (- 50)), playerClosed, nil, [], [\<lparr>queue = 1, bufs = [2, 3]\<rparr>],
           None, [AudioQueueStop 1, AudioQueueStop 1])"
proof (rule conjI)
  show "Play 0 (blank three_bytes (fails_at 7)) \<bind> (\<lambda>w. Close 0 w \<bind> (\<lambda>(e1, w1).
     Close 0 w1 \<bind> (\<lambda>(e2, w2).
       Some (e1, state (heap w1 0), audioQueue (heap w1 0), used (pool w1), unused (pool w1),
             players (thePlayers w1) 1, drop 7 (calls w1),
             e2, state (heap w2 0), audioQueue (heap w2 0), used (pool w2), unused (pool w2),
             players (thePlayers w2) 1, drop 7 (calls w2)))))
   = Some (Some (StopFailed (- 50)), playerClosed, 1, [\<lparr>queue = 1, bufs = [2, 3]\<rparr>], [],
           Some 0, [AudioQueueStop 1],
           Some (StopFailed (- 50)), playerClosed, nil, [], [\<lparr>queue = 1, bufs = [2, 3]\<rparr>],
           None, [AudioQueueStop 1, AudioQueueStop 1])"
    apply (simp add: run_defs fixture_defs)
    apply (subst fillLoop.simps)
    apply (simp add: run_defs fixture_defs)
    apply (subst primeLoop.simps)
    apply (simp add: run_defs close_defs fixture_defs noErr_def)
    done
  show "Play 0 (blank three_bytes (fails_at 7)) \<bind> (\<lambda>w. Reset 0 w \<bind> (\<lambda>w1.
       Some (err (heap w1 0), state (heap w1 0), audioQueue (heap w1 0), used (pool w1),
             unused (pool w1), players (thePlayers w1) 1, drop 7 (calls w1))))
   = Some (Some (StopFailed (- 50)), playerClosed, nil, [], [\<lparr>queue = 1, bufs = [2, 3]\<rparr>],
           None, [AudioQueueStop 1, AudioQueueStop 1])"
    apply (simp add: run_defs fixture_defs)
    apply (subst fillLoop.simps)
    apply (simp add: run_defs fixture_defs)
    apply (subst primeLoop.simps)
    apply (simp add: run_defs close_defs fixture_defs noErr_def Reset_def resetImpl_def)
    done
qed



text \<open>C1, as amended. A player that is paused, free of errors, without a queue and
  without backlog, its mutex free, is played; the pool hands out a queue with two buffers,
  every coming native call succeeds, and the source ends during the first fill: its reads
  give fewer than \<open>maxBufferSize\<close> bytes in all and the last of them reports \<open>io.EOF\<close>.
  Then \<open>Play\<close> returns with the end-of-stream flag set. When the source gave no byte at
  all, both buffers stay unqueued and the player is left paused, the volume call being the
  only native call after the pool's. When it gave at least one byte, \<open>Play\<close> enqueues the
  backlog, in one buffer or in two, primes and starts the queue, and the player is left
  playing.\<close>

theorem Play_end_of_stream:
  assumes i: "idle p w" and e: "err (heap w p) = None" and s: "state (heap w p) = playerPaused"
    and q: "audioQueue (heap w p) = nil" and b: "buf (heap w p) = []"
    and g: "fst (Get w) = Inr (a, [b1, b2])"
    and st: "\<forall>k\<ge>length (calls w). status w k = noErr"
    and r1: "\<forall>j<n. snd (src (heap w p) j) = None" and r2: "snd (src (heap w p) n) = Some EOF"
    and l: "length (concat (map (\<lambda>j. fst (src (heap w p) j)) [0..<Suc n])) < maxBufferSize (ctx w)"
    and data: "data = concat (map (\<lambda>j. fst (src (heap w p) j)) [0..<Suc n])"
    and one: "one = oneBufferSize (ctx w)"
  shows "\<exists>w'. Play p w = Some w' \<and> err (heap w' p) = None \<and> eof (heap w' p)
     \<and> audioQueue (heap w' p) = a \<and> \<not> mutex (heap w' p)
     \<and> (if data = []
         then state (heap w' p) = playerPaused \<and> unqueuedBufs (heap w' p) = [b1, b2]
            \<and> buf (heap w' p) = []
            \<and> calls w' = calls (snd (Get w)) @
                 [AudioQueueSetParameter a (AudioQueueParameterValue (volume (heap w p)))]
         else state (heap w' p) = playerPlay
            \<and> unqueuedBufs (heap w' p) = (if drop one data = [] then [b2] else [])
            \<and> buf (heap w' p) = drop one (drop one data)
            \<and> calls w' = calls (snd (Get w)) @
                 [AudioQueueSetParameter a (AudioQueueParameterValue (volume (heap w p))),
                  AudioQueueEnqueueBuffer a b1
                    (take one data @ replicate (one - length (take one data)) 0)] @
                 (if drop one data = [] then []
                  else [AudioQueueEnqueueBuffer a b2
                          (take one (drop one data)
                           @ replicate (one - length (take one (drop one data))) 0)]) @
                 [AudioQueuePrime a, AudioQueueStart a])"
proof -
  define G where "G = snd (Get w)"
  have gw: "Get w = (Inr (a, [b1, b2]), G)"
    using g by (cases "Get w") (simp add: G_def)
  have Gf: "heap G = heap w" "ctx G = ctx w" "status G = status w" "thePlayers G = thePlayers w"
    by (simp_all add: G_def)
  have lenG: "length (calls w) \<le> length (calls G)"
    using Get_frame [of w] by (auto simp: pool_frame_def G_def prefix_def)
  have ok: "status w (length (calls G) + k) = noErr" for k
    using st lenG by simp
  define W where "W = locked p w"
  have hW: "held p W"
    unfolding W_def using i by (rule held_locked)
  have GW: "Get W = (Inr (a, [b1, b2]), locked p G)"
    by (simp add: W_def locked_def Get_upd gw)
  define V where "V = AudioQueueParameterValue (volume (heap w p))"
  define W2 where "W2 = register p a (snd (native (AudioQueueSetParameter a V)
      (upd p (\<lambda>x. x\<lparr>audioQueue := a, unqueuedBufs := [b1, b2]\<rparr>) (locked p G))))"
  have qW: "audioQueue (heap W p) = nil"
    using q by (simp add: W_def)
  have "playImpl_acquire0 p W = (True, W2)"
    using qW by (simp add: playImpl_acquire0_def GW Let_def W2_def V_def Gf)
  then have acq: "playImpl_acquire p W = Some (True, W2)"
    by (simp add: playImpl_acquire_held [OF hW])
  have W2f: "heap W2 p = (heap w p)\<lparr>mutex := True, audioQueue := a, unqueuedBufs := [b1, b2]\<rparr>"
    "ctx W2 = ctx w" "status W2 = status w"
    "calls W2 = calls G @ [AudioQueueSetParameter a V]"
    by (simp_all add: W2_def register_def locked_def Gf)
  define W3 where "W3 = upd p (\<lambda>x. x\<lparr>src := (\<lambda>k. src x (Suc n + k)),
                               buf := buf x @ concat (map (\<lambda>j. fst (src x j)) [0..<Suc n]),
                               eof := True\<rparr>) W2"
  have fill: "fillLoop p W2 = Some (None, W3)"
    unfolding W3_def
    by (rule fillLoop_eof) (use r1 r2 l b in \<open>simp_all add: W2f\<close>)
  have W3f: "buf (heap W3 p) = data" "eof (heap W3 p)" "unqueuedBufs (heap W3 p) = [b1, b2]"
    "audioQueue (heap W3 p) = a" "err (heap W3 p) = None" "state (heap W3 p) = playerPaused"
    "mutex (heap W3 p)"
    "calls W3 = calls G @ [AudioQueueSetParameter a V]" "ctx W3 = ctx w" "status W3 = status w"
    using b e s by (simp_all add: W3_def W2f data)
  have esW: "err (heap W p) = None" "state (heap W p) = playerPaused"
    using e s by (simp_all add: W_def)
  have pl: "playImpl p W = playImpl_drain p W3"
    using esW by (simp add: playImpl_def acq playImpl_fill_def fill)
  have P: "Play p w = map_option (unlocked p) (playImpl_drain p W3)"
    using Play_idle [OF i] pl by (simp add: W_def)
  show ?thesis
  proof (cases "data = []")
    case True
    have d: "playImpl_drain p W3 = Some (upd p (\<lambda>x. x\<lparr>unqueuedBufs := [b1, b2], state := playerPaused\<rparr>) W3)"
      using True by (simp add: playImpl_drain_def W3f appendBufferImpl_def)
    show ?thesis
      unfolding P d G_def [symmetric] using True by (simp add: W3f V_def)
  next
    case False
    have k1: "status w (Suc (length (calls G))) = noErr" using ok [of 1] by simp
    have k2: "status w (Suc (Suc (length (calls G)))) = noErr" using ok [of "Suc (Suc 0)"] by simp
    have k3: "status w (Suc (Suc (Suc (length (calls G))))) = noErr" using ok [of "Suc (Suc (Suc 0))"] by simp
    have k4: "status w (Suc (Suc (Suc (Suc (length (calls G)))))) = noErr" using ok [of "Suc (Suc (Suc (Suc 0)))"] by simp
    note defs = playImpl_drain_def W3f appendBufferImpl_def native_def Let_def playImpl_start_def
      primeLoop_ok one [symmetric] k1 k2 k3 k4
    show ?thesis
    proof (cases "drop one data = []")
      case True
      have t: "min (length data) one = length data" "take one data = data"
        using True by (simp_all add: min_def)
      show ?thesis
        unfolding P G_def [symmetric] using False True
        by (simp add: defs t V_def)
    next
      case d2: False
      then have t: "one < length data" by simp
      show ?thesis
        unfolding P G_def [symmetric] using False d2 t
        by (simp add: defs V_def min_def) arith
    qed
  qed
qed

theorem Play_end_of_stream_witness:
  "(idle 0 (blank silence ok) \<and> fst (Get (blank silence ok)) = Inr (1, [2, 3])
    \<and> snd (silence 0) = Some EOF
    \<and> (\<exists>w'. Play 0 (blank silence ok) = Some w' \<and> eof (heap w' 0)
          \<and> state (heap w' 0) = playerPaused \<and> unqueuedBufs (heap w' 0) = [2, 3]
          \<and> calls w' = calls (snd (Get (blank silence ok))) @
                [AudioQueueSetParameter 1 (AudioQueueParameterValue 4607182418800017408)]))
   \<and> (idle 0 (blank three_bytes ok) \<and> fst (Get (blank three_bytes ok)) = Inr (1, [2, 3])
    \<and> three_bytes 0 = ([1, 2, 3], Some EOF)
    \<and> (\<exists>w'. Play 0 (blank three_bytes ok) = Some w' \<and> eof (heap w' 0)
          \<and> state (heap w' 0) = playerPlay \<and> unqueuedBufs (heap w' 0) = [3]
          \<and> calls w' = calls (snd (Get (blank three_bytes ok))) @
                [AudioQueueSetParameter 1 (AudioQueueParameterValue 4607182418800017408),
                 AudioQueueEnqueueBuffer 1 2 [1, 2, 3, 0], AudioQueuePrime 1, AudioQueueStart 1]))"
proof (rule conjI)
  define b where "b = blank silence ok"
  have i: "idle 0 b"
    by (simp add: idle_def blank_def NewPlayer_def b_def)
  have h: "err (heap b 0) = None" "state (heap b 0) = playerPaused" "audioQueue (heap b 0) = nil"
    "buf (heap b 0) = []" "\<forall>k\<ge>length (calls b). status b k = noErr"
    "\<forall>j<0. snd (src (heap b 0) j) = None" "snd (src (heap b 0) 0) = Some EOF"
    "length (concat (map (\<lambda>j. fst (src (heap b 0) j)) [0..<Suc 0])) < maxBufferSize (ctx b)"
    "[] = concat (map (\<lambda>j. fst (src (heap b 0) j)) [0..<Suc 0])"
    "4 = oneBufferSize (ctx b)" "volume (heap b 0) = 4607182418800017408"
    by (simp_all add: b_def blank_def NewPlayer_def ok_def silence_def ctx0_def)
  have g: "fst (Get b) = Inr (1, [2, 3])"
    by (simp add: b_def Get_def native_def newHandle_def blank_def ok_def allocateBuffers_2)
  from Play_end_of_stream [OF i h(1-4) g h(5-10)] h(11)
  have "\<exists>w'. Play 0 b = Some w' \<and> eof (heap w' 0)
          \<and> state (heap w' 0) = playerPaused \<and> unqueuedBufs (heap w' 0) = [2, 3]
          \<and> calls w' = calls (snd (Get b)) @
                [AudioQueueSetParameter 1 (AudioQueueParameterValue 4607182418800017408)]"
    by auto
  with i g show "idle 0 (blank silence ok) \<and> fst (Get (blank silence ok)) = Inr (1, [2, 3])
    \<and> snd (silence 0) = Some EOF
    \<and> (\<exists>w'. Play 0 (blank silence ok) = Some w' \<and> eof (heap w' 0)
          \<and> state (heap w' 0) = playerPaused \<and> unqueuedBufs (heap w' 0) = [2, 3]
          \<and> calls w' = calls (snd (Get (blank silence ok))) @
                [AudioQueueSetParameter 1 (AudioQueueParameterValue 4607182418800017408)])"
    unfolding b_def by (simp add: silence_def)
next
  define b where "b = blank three_bytes ok"
  have i: "idle 0 b"
    by (simp add: idle_def blank_def NewPlayer_def b_def)
  have h: "err (heap b 0) = None" "state (heap b 0) = playerPaused" "audioQueue (heap b 0) = nil"
    "buf (heap b 0) = []" "\<forall>k\<ge>length (calls b). status b k = noErr"
    "\<forall>j<0. snd (src (heap b 0) j) = None" "snd (src (heap b 0) 0) = Some EOF"
    "length (concat (map (\<lambda>j. fst (src (heap b 0) j)) [0..<Suc 0])) < maxBufferSize (ctx b)"
    "[1, 2, 3] = concat (map (\<lambda>j. fst (src (heap b 0) j)) [0..<Suc 0])"
    "4 = oneBufferSize (ctx b)" "volume (heap b 0) = 4607182418800017408"
    by (simp_all add: b_def blank_def NewPlayer_def ok_def three_bytes_def ctx0_def)
  have g: "fst (Get b) = Inr (1, [2, 3])"
    by (simp add: b_def Get_def native_def newHandle_def blank_def ok_def allocateBuffers_2)
  from Play_end_of_stream [OF i h(1-4) g h(5-10)] h(11)
  have "\<exists>w'. Play 0 b = Some w' \<and> eof (heap w' 0)
          \<and> state (heap w' 0) = playerPlay \<and> unqueuedBufs (heap w' 0) = [3]
          \<and> calls w' = calls (snd (Get b)) @
                [AudioQueueSetParameter 1 (AudioQueueParameterValue 4607182418800017408),
                 AudioQueueEnqueueBuffer 1 2 [1, 2, 3, 0], AudioQueuePrime 1, AudioQueueStart 1]"
    by auto
  with i g show "idle 0 (blank three_bytes ok) \<and> fst (Get (blank three_bytes ok)) = Inr (1, [2, 3])
    \<and> three_bytes 0 = ([1, 2, 3], Some EOF)
    \<and> (\<exists>w'. Play 0 (blank three_bytes ok) = Some w' \<and> eof (heap w' 0)
          \<and> state (heap w' 0) = playerPlay \<and> unqueuedBufs (heap w' 0) = [3]
          \<and> calls w' = calls (snd (Get (blank three_bytes ok))) @
                [AudioQueueSetParameter 1 (AudioQueueParameterValue 4607182418800017408),
                 AudioQueueEnqueueBuffer 1 2 [1, 2, 3, 0], AudioQueuePrime 1, AudioQueueStart 1])"
    unfolding b_def by (simp add: three_bytes_def)
qed

text \<open>The claim as it was stated fails: a source of three bytes (\<open>maxBufferSize\<close> is 8)
  whose first read reports \<open>io.EOF\<close>. \<open>Play\<close> enqueues the three bytes, primes and starts
  the queue and leaves the player playing.\<close>

theorem Play_short_source_counterexample:
  "map_option (\<lambda>w. (state (heap w 0), eof (heap w 0), err (heap w 0), calls w))
     (Play 0 (blank three_bytes ok))
   = Some (playerPlay, True, None,
           [AudioQueueNewOutput, AudioQueueAllocateBuffer 1 4, AudioQueueAllocateBuffer 1 4,
            AudioQueueSetParameter 1 1065353216, AudioQueueEnqueueBuffer 1 2 [1, 2, 3, 0],
            AudioQueuePrime 1, AudioQueueStart 1])"
proof -
  have c: "AudioQueueParameterValue 4607182418800017408 = 1065353216"
    by (simp add: AudioQueueParameterValue_def Let_def)
  show ?thesis
    apply (simp add: run_defs fixture_defs c)
    apply (subst fillLoop.simps)
    apply (simp add: run_defs fixture_defs c)
    apply (subst primeLoop.simps)
    apply (simp add: run_defs fixture_defs c)
    done
qed


end
